theory Spec2Isabelle
  imports Main
begin

section \<open>Python values\<close>

text \<open>
  The exporter handles the values \<^verbatim>\<open>response.json()\<close> returns: \<^verbatim>\<open>None\<close>, booleans,
  integers, strings, lists and dictionaries. A dictionary keeps its insertion order, so
  it is an association list; a lookup takes the first entry of a key (a Python
  dictionary holds each key once). A string is a sequence of code points below 256:
  this is all a header value holds (the library decodes it as Latin-1), and the model
  covers the text of that range. JSON numbers with a fraction are not modelled, nor
  are values nested more deeply than the decoder and the encoder can follow.
\<close>

datatype json =
    JNull
  | JBool bool
  | JNum int
  | JStr string
  | JArr "json list"
  | JObj "(string \<times> json) list"

text \<open>The exceptions that the code does not catch somewhere, as values.\<close>

datatype py_error =
    ValueError | KeyError | TypeError | AttributeError | OverflowError | OSError
  | RecursionError

text \<open>Truth value testing, as \<^verbatim>\<open>while url:\<close> and \<^verbatim>\<open>if not data:\<close> do it.\<close>

fun truthy :: "json \<Rightarrow> bool" where
  "truthy JNull = False"
| "truthy (JBool b) = b"
| "truthy (JNum n) = (n \<noteq> 0)"
| "truthy (JStr s) = (s \<noteq> [])"
| "truthy (JArr xs) = (xs \<noteq> [])"
| "truthy (JObj kvs) = (kvs \<noteq> [])"

text \<open>\<^verbatim>\<open>d[k] = v\<close>: an existing key keeps its place, a new key goes last.\<close>

fun dict_set :: "(string \<times> json) list \<Rightarrow> string \<Rightarrow> json \<Rightarrow> (string \<times> json) list" where
  "dict_set [] k v = [(k, v)]"
| "dict_set ((k', v') # kvs) k v =
     (if k' = k then (k, v) # kvs else (k', v') # dict_set kvs k v)"

text \<open>\<^verbatim>\<open>x.get(k, d)\<close>: only a dictionary has the method.\<close>

fun py_get :: "json \<Rightarrow> string \<Rightarrow> json \<Rightarrow> py_error + json" where
  "py_get (JObj kvs) k d = Inr (case map_of kvs k of None \<Rightarrow> d | Some v \<Rightarrow> v)"
| "py_get _ k d = Inl AttributeError"

text \<open>\<^verbatim>\<open>x[k]\<close> with a string key \<open>k\<close>.\<close>

fun py_getitem :: "json \<Rightarrow> string \<Rightarrow> py_error + json" where
  "py_getitem (JObj kvs) k = (case map_of kvs k of None \<Rightarrow> Inl KeyError | Some v \<Rightarrow> Inr v)"
| "py_getitem _ k = Inl TypeError"

text \<open>\<^verbatim>\<open>x[k] = v\<close> with a string key \<open>k\<close>.\<close>

fun py_setitem :: "json \<Rightarrow> string \<Rightarrow> json \<Rightarrow> py_error + json" where
  "py_setitem (JObj kvs) k v = Inr (JObj (dict_set kvs k v))"
| "py_setitem _ k v = Inl TypeError"

text \<open>
  Iteration, as \<^verbatim>\<open>for x in v\<close> and \<^verbatim>\<open>list.extend(v)\<close> do it: a list gives its
  elements, a string its characters, a dictionary its keys; nothing else is iterable.
\<close>

fun py_iter :: "json \<Rightarrow> py_error + json list" where
  "py_iter (JArr xs) = Inr xs"
| "py_iter (JStr s) = Inr (map (\<lambda>c. JStr [c]) s)"
| "py_iter (JObj kvs) = Inr (map (\<lambda>kv. JStr (fst kv)) kvs)"
| "py_iter _ = Inl TypeError"

subsection \<open>Formatting\<close>

definition digit_char :: "nat \<Rightarrow> char" where
  "digit_char d = ''0123456789abcdef'' ! d"

fun str_nat :: "nat \<Rightarrow> string" where
  "str_nat n = (if n < 10 then [digit_char n] else str_nat (n div 10) @ [digit_char (n mod 10)])"

declare str_nat.simps [simp del]

definition str_int :: "int \<Rightarrow> string" where
  "str_int i = (if i < 0 then CHR ''-'' # str_nat (nat (- i)) else str_nat (nat i))"

text \<open>
  \<^verbatim>\<open>repr\<close> of a string: the quote is chosen as Python chooses it. The code points
  that are not printable are escaped: the control characters, the no-break space and
  the soft hyphen.
\<close>

definition repr_char :: "char \<Rightarrow> char \<Rightarrow> string" where
  "repr_char q c =
     (if c = q \<or> c = CHR 0x5C then [CHR 0x5C, c]
      else if c = CHR 0x0A then [CHR 0x5C, CHR ''n'']
      else if c = CHR 0x0D then [CHR 0x5C, CHR ''r'']
      else if c = CHR 0x09 then [CHR 0x5C, CHR ''t'']
      else if (of_char c :: nat) < 32 \<or> (127 \<le> (of_char c :: nat) \<and> (of_char c :: nat) \<le> 160)
              \<or> (of_char c :: nat) = 173
        then [CHR 0x5C, CHR ''x'', digit_char (of_char c div 16), digit_char (of_char c mod 16)]
      else [c])"

definition repr_str :: "string \<Rightarrow> string" where
  "repr_str s =
     (let q = (if CHR 0x27 \<in> set s \<and> CHR 0x22 \<notin> set s then CHR 0x22 else CHR 0x27)
      in q # concat (map (repr_char q) s) @ [q])"

fun join :: "string \<Rightarrow> string list \<Rightarrow> string" where
  "join sep [] = []"
| "join sep [x] = x"
| "join sep (x # y # ys) = x @ sep @ join sep (y # ys)"

fun py_repr :: "json \<Rightarrow> string" where
  "py_repr JNull = ''None''"
| "py_repr (JBool b) = (if b then ''True'' else ''False'')"
| "py_repr (JNum n) = str_int n"
| "py_repr (JStr s) = repr_str s"
| "py_repr (JArr xs) = ''['' @ join '', '' (map py_repr xs) @ '']''"
| "py_repr (JObj kvs) =
     ''{'' @ join '', '' (map (\<lambda>kv. repr_str (fst kv) @ '': '' @ py_repr (snd kv)) kvs) @ ''}''"

text \<open>What an f-string puts for \<^verbatim>\<open>{x}\<close>: a string as it is, anything else as its \<^verbatim>\<open>repr\<close>.\<close>

fun py_str :: "json \<Rightarrow> string" where
  "py_str (JStr s) = s"
| "py_str x = py_repr x"

subsection \<open>Parsing an integer\<close>

text \<open>
  The white space that \<^verbatim>\<open>int\<close> strips: below 256 these are the six ASCII characters
  and, of the others with the Unicode property, the next-line control and the no-break
  space.
\<close>

definition is_space :: "char \<Rightarrow> bool" where
  "is_space c =
     (c \<in> set [CHR '' '', CHR 0x09, CHR 0x0A, CHR 0x0B, CHR 0x0C, CHR 0x0D,
                CHR 0x85, CHR 0xA0])"

definition is_digit :: "char \<Rightarrow> bool" where
  "is_digit c = (c \<in> set ''0123456789'')"

definition strip :: "string \<Rightarrow> string" where
  "strip s = rev (dropWhile is_space (rev (dropWhile is_space s)))"

text \<open>Digits, with single underscores allowed between them.\<close>

fun digits_ok :: "string \<Rightarrow> bool" where
  "digits_ok [] = False"
| "digits_ok [c] = is_digit c"
| "digits_ok (c # d # r) =
     (is_digit c \<and> (if d = CHR ''_'' then digits_ok r else digits_ok (d # r)))"

definition digits_value :: "string \<Rightarrow> nat" where
  "digits_value ds = foldl (\<lambda>a c. 10 * a + (of_char c - 48)) 0 (filter is_digit ds)"

text \<open>
  \<^verbatim>\<open>int(s)\<close> for a string \<open>s\<close>; \<^verbatim>\<open>int(60)\<close> is 60. The interpreter refuses a
  decimal string of more than 4300 digits.
\<close>

definition max_str_digits :: nat where
  "max_str_digits = 4300"

definition py_int :: "string \<Rightarrow> py_error + int" where
  "py_int s =
     (let t = strip s;
          neg = (t \<noteq> [] \<and> hd t = CHR ''-'');
          ds = (if t \<noteq> [] \<and> (hd t = CHR ''-'' \<or> hd t = CHR ''+'') then tl t else t)
      in if digits_ok ds \<and> length (filter is_digit ds) \<le> max_str_digits
         then Inr (if neg then - int (digits_value ds) else int (digits_value ds))
         else Inl ValueError)"

section \<open>The world outside the exporter\<close>

text \<open>
  What \<^verbatim>\<open>session.get\<close> gives: an exception of the requests library (no connection, a
  timeout, a URL it refuses), or a response. \<open>json_body\<close> is what \<^verbatim>\<open>response.json()\<close>
  returns, \<open>None\<close> when the body is not JSON (requests then raises its
  \<^verbatim>\<open>JSONDecodeError\<close>, a \<^verbatim>\<open>RequestException\<close>).
\<close>

datatype http_result =
    RequestException
  | Response (status_code: nat) (retry_after: "string option")
      (json_body: "json option") (content: string)

datatype file_body = JsonText json | Bytes string

text \<open>The effects of a run, in the order they happen.\<close>

datatype event = Get json | Sleep int | Pause | Write string file_body

text \<open>
  \<open>responses\<close> are the results of the GET requests still to come, in order: the server's
  behaviour is any such sequence. \<open>writable\<close> says which paths \<^verbatim>\<open>open\<close> accepts for
  writing, \<open>clock\<close> is what \<^verbatim>\<open>time.strftime\<close> returns. Two limits belong to the
  interpreter and the platform: \<open>retry_depth\<close> is the number of nested calls of
  \<open>make_request\<close> that still fit under the limit on the depth of calls when
  \<open>get_all_paginated\<close> has made the first one (about 980 with the default limit of 1000),
  \<open>sleep_max\<close> is the longest wait in seconds that the platform's sleep accepts.
\<close>

record world =
  responses :: "nat \<Rightarrow> http_result"
  writable :: "string \<Rightarrow> bool"
  clock :: string
  trace :: "event list"
  retry_depth :: nat
  sleep_max :: int

record exporter =
  subdomain :: string
  email :: string
  api_token :: string

definition hc_base_url :: "exporter \<Rightarrow> string" where
  "hc_base_url ex = ''https://'' @ subdomain ex @ ''.zendesk.com/api/v2/help_center''"

definition export_dir :: "exporter \<Rightarrow> string" where
  "export_dir ex = ''zendesk_export_'' @ subdomain ex"

text \<open>A GET takes the next result; \<open>advance\<close> is the world after it.\<close>

definition advance :: "json \<Rightarrow> world \<Rightarrow> world" where
  "advance url w =
     w\<lparr>responses := (\<lambda>n. responses w (Suc n)), trace := trace w @ [Get url]\<rparr>"

definition session_get :: "json \<Rightarrow> world \<Rightarrow> http_result \<times> world" where
  "session_get url w = (responses w 0, advance url w)"

text \<open>
  \<^verbatim>\<open>time.sleep(secs)\<close> for an integer: a length that does not fit the clock's 64-bit
  nanoseconds is an \<^verbatim>\<open>OverflowError\<close>, a negative one a \<^verbatim>\<open>ValueError\<close>, one that the
  platform refuses an \<^verbatim>\<open>OSError\<close>.
\<close>

definition time_sleep :: "int \<Rightarrow> world \<Rightarrow> py_error + world" where
  "time_sleep secs w =
     (if secs < - 9223372036 \<or> 9223372036 < secs then Inl OverflowError
      else if secs < 0 then Inl ValueError
      else if sleep_max w < secs then Inl OSError
      else Inr (w\<lparr>trace := trace w @ [Sleep secs]\<rparr>))"

text \<open>\<^verbatim>\<open>response.raise_for_status()\<close> raises for the statuses 400 to 599.\<close>

definition http_error :: "nat \<Rightarrow> bool" where
  "http_error st = (400 \<le> st \<and> st < 600)"

section \<open>The paginated fetcher\<close>

text \<open>
  \<open>make_request\<close>: \<open>Inl\<close> is an exception that leaves the function, \<open>Inr JNull\<close> is the
  \<^verbatim>\<open>None\<close> it returns after a \<^verbatim>\<open>RequestException\<close>. The retry after a 429 is the
  function calling itself, with no bound in the code; the bound is the interpreter's
  limit on the depth of calls. \<open>make_request_at depth\<close> is a call under which \<open>depth\<close>
  more nested calls fit: the call that no longer fits raises \<^verbatim>\<open>RecursionError\<close>, which
  the handler for \<^verbatim>\<open>RequestException\<close> does not catch, before it sends a request.
\<close>

fun make_request_at :: "nat \<Rightarrow> json \<Rightarrow> world \<Rightarrow> (py_error + json) \<times> world" where
  "make_request_at depth url w =
     (case session_get url w of
        (RequestException, w1) \<Rightarrow> (Inr JNull, w1)
      | (Response st ra body c, w1) \<Rightarrow>
          if st = 429 then
            (case (case ra of None \<Rightarrow> Inr 60 | Some s \<Rightarrow> py_int s) of
               Inl e \<Rightarrow> (Inl e, w1)
             | Inr secs \<Rightarrow>
                 (case time_sleep secs w1 of
                    Inl e \<Rightarrow> (Inl e, w1)
                  | Inr w2 \<Rightarrow>
                      (case depth of
                         0 \<Rightarrow> (Inl RecursionError, w2)
                       | Suc d \<Rightarrow> make_request_at d url w2)))
          else if http_error st then (Inr JNull, w1)
          else (case body of None \<Rightarrow> (Inr JNull, w1) | Some d \<Rightarrow> (Inr d, w1)))"

declare make_request_at.simps [simp del]

text \<open>
  The call that \<open>get_all_paginated\<close> makes. It always returns, since the depth of the
  calls is bounded; its result has the option type of the loop that uses it.
\<close>

definition make_request :: "json \<Rightarrow> world \<Rightarrow> ((py_error + json) \<times> world) option" where
  "make_request url w = Some (make_request_at (retry_depth w) url w)"

text \<open>
  The loop of \<open>get_all_paginated\<close>: \<open>url\<close> is the request target, \<open>all_items\<close> the items
  collected so far.
\<close>

partial_function (option) paginate ::
    "string \<Rightarrow> json \<Rightarrow> json list \<Rightarrow> world \<Rightarrow> ((py_error + json list) \<times> world) option" where
  "paginate key url all_items w =
     (if \<not> truthy url then Some (Inr all_items, w)
      else
        (case make_request url w of
           None \<Rightarrow> None
         | Some (Inl e, w1) \<Rightarrow> Some (Inl e, w1)
         | Some (Inr data, w1) \<Rightarrow>
             if \<not> truthy data then Some (Inr all_items, w1)
             else
               (case py_get data key (JArr []) of
                  Inl e \<Rightarrow> Some (Inl e, w1)
                | Inr v \<Rightarrow>
                    (case py_iter v of
                       Inl e \<Rightarrow> Some (Inl e, w1)
                     | Inr items \<Rightarrow>
                         (case py_get data ''next_page'' JNull of
                            Inl e \<Rightarrow> Some (Inl e, w1)
                          | Inr url' \<Rightarrow>
                              paginate key url' (all_items @ items)
                                (w1\<lparr>trace := trace w1 @ [Pause]\<rparr>))))))"

declare paginate.simps [code]

definition get_all_paginated ::
    "exporter \<Rightarrow> string \<Rightarrow> string \<Rightarrow> world \<Rightarrow> ((py_error + json list) \<times> world) option" where
  "get_all_paginated ex endpoint key w =
     paginate key (JStr (hc_base_url ex @ ''/'' @ endpoint)) [] w"

section \<open>Attachments\<close>

text \<open>\<^verbatim>\<open>os.path.join\<close> on POSIX: a component that starts with a slash restarts the path.\<close>

definition path_join2 :: "string \<Rightarrow> string \<Rightarrow> string" where
  "path_join2 path b =
     (if b \<noteq> [] \<and> hd b = CHR ''/'' then b
      else if path = [] \<or> last path = CHR ''/'' then path @ b
      else path @ ''/'' @ b)"

definition os_path_join :: "string \<Rightarrow> string list \<Rightarrow> string" where
  "os_path_join a ps = foldl path_join2 a ps"

text \<open>
  \<open>download_attachment\<close> catches every exception: a failed request, an error status
  and a file that cannot be written all give \<open>None\<close>.
\<close>

definition download_attachment ::
    "exporter \<Rightarrow> json \<Rightarrow> string \<Rightarrow> world \<Rightarrow> string option \<times> world" where
  "download_attachment ex attachment_url filename w =
     (case session_get attachment_url w of
        (RequestException, w1) \<Rightarrow> (None, w1)
      | (Response st ra body c, w1) \<Rightarrow>
          if http_error st then (None, w1)
          else
            (let filepath = os_path_join (export_dir ex) [''attachments'', filename]
             in if writable w1 filepath
                then (Some filepath, w1\<lparr>trace := trace w1 @ [Write filepath (Bytes c)]\<rparr>)
                else (None, w1)))"

subsection \<open>The two regular expressions\<close>

definition attachment_prefix :: string where
  "attachment_prefix = ''https://support.userology.co/hc/article_attachments/''"

definition starts_with :: "string \<Rightarrow> string \<Rightarrow> bool" where
  "starts_with p s = (take (length p) s = p)"

text \<open>
  \<^verbatim>\<open>re.findall\<close> of the attachment pattern: the digit groups of the matches, left to
  right; the scan goes on after the end of a match. \<^verbatim>\<open>\d\<close> is an ASCII digit here.
\<close>

function findall_ids :: "string \<Rightarrow> string list" where
  "findall_ids [] = []"
| "findall_ids (c # s) =
     (if starts_with attachment_prefix (c # s)
         \<and> takeWhile is_digit (drop (length attachment_prefix) (c # s)) \<noteq> []
      then takeWhile is_digit (drop (length attachment_prefix) (c # s))
             # findall_ids (dropWhile is_digit (drop (length attachment_prefix) (c # s)))
      else findall_ids s)"
  by pat_completeness auto
termination
proof (relation "measure length")
  show "wf (measure length)" by simp
next
  fix c :: char and s :: string
  have "length (dropWhile is_digit (drop (length attachment_prefix) (c # s)))
          \<le> length (drop (length attachment_prefix) (c # s))"
    by (rule length_dropWhile_le)
  moreover have "length (drop (length attachment_prefix) (c # s)) < length (c # s)"
    by (simp add: attachment_prefix_def)
  ultimately show "(dropWhile is_digit (drop (length attachment_prefix) (c # s)), c # s)
      \<in> measure length"
    by simp
next
  fix c :: char and s :: string
  show "(s, c # s) \<in> measure length" by simp
qed

declare findall_ids.simps [simp del]

definition dq :: char where
  "dq = CHR 0x22"

fun first_some :: "('a \<Rightarrow> 'b option) \<Rightarrow> 'a list \<Rightarrow> 'b option" where
  "first_some f [] = None"
| "first_some f (x # xs) = (case f x of Some y \<Rightarrow> Some y | None \<Rightarrow> first_some f xs)"

text \<open>
  A greedy \<^verbatim>\<open>[^>]*\<close> followed by the rest \<open>k\<close> of the pattern: the longest run is tried
  first, then the shorter ones.
\<close>

definition greedy_not_gt :: "(string \<Rightarrow> 'b option) \<Rightarrow> string \<Rightarrow> 'b option" where
  "greedy_not_gt k s =
     first_some (\<lambda>n. k (drop n s)) (rev [0..<Suc (length (takeWhile (\<lambda>c. c \<noteq> CHR ''>'') s))])"

text \<open>\<^verbatim>\<open>alt="([^"]*)"\<close> at the start of \<open>s\<close>: the group.\<close>

definition match_alt :: "string \<Rightarrow> string option" where
  "match_alt s =
     (if starts_with (''alt='' @ [dq]) s
      then (let r = drop 5 s; g = takeWhile (\<lambda>c. c \<noteq> dq) r
            in if length g < length r then Some g else None)
      else None)"

text \<open>\<^verbatim>\<open>src="URL"[^>]*alt="([^"]*)"\<close> at the start of \<open>s\<close>.\<close>

definition match_src :: "string \<Rightarrow> string \<Rightarrow> string option" where
  "match_src url s =
     (if starts_with (''src='' @ [dq] @ url @ [dq]) s
      then greedy_not_gt match_alt (drop (length (''src='' @ [dq] @ url @ [dq])) s)
      else None)"

text \<open>The whole image pattern at the start of \<open>s\<close>.\<close>

definition match_img :: "string \<Rightarrow> string \<Rightarrow> string option" where
  "match_img url s =
     (if starts_with ''<img'' s then greedy_not_gt (match_src url) (drop 4 s) else None)"

text \<open>\<^verbatim>\<open>re.search\<close>: the leftmost position where the pattern matches.\<close>

fun search_img :: "string \<Rightarrow> string \<Rightarrow> string option" where
  "search_img url [] = match_img url []"
| "search_img url (c # s) =
     (case match_img url (c # s) of Some g \<Rightarrow> Some g | None \<Rightarrow> search_img url s)"

subsection \<open>Inline attachments\<close>

definition inline_name :: "string \<Rightarrow> string \<Rightarrow> string" where
  "inline_name html attachment_id =
     (case search_img (attachment_prefix @ attachment_id) html of
        Some alt \<Rightarrow> alt
      | None \<Rightarrow> ''attachment_'' @ attachment_id)"

definition inline_filename :: "string \<Rightarrow> json \<Rightarrow> nat \<Rightarrow> string \<Rightarrow> string" where
  "inline_filename html article_id i attachment_id =
     py_str article_id @ ''_'' @ str_nat (i + 1) @ ''_'' @ inline_name html attachment_id"

definition inline_record :: "string \<Rightarrow> json \<Rightarrow> nat \<Rightarrow> string \<Rightarrow> string \<Rightarrow> json" where
  "inline_record html article_id i attachment_id filepath =
     JObj [(''attachment_id'', JStr attachment_id),
           (''original_url'', JStr (attachment_prefix @ attachment_id)),
           (''local_path'', JStr filepath),
           (''filename'', JStr (inline_filename html article_id i attachment_id)),
           (''original_filename'', JStr (inline_name html attachment_id))]"

text \<open>The loop over \<^verbatim>\<open>enumerate(matches)\<close>, from index \<open>i\<close> on.\<close>

fun inline_loop ::
    "exporter \<Rightarrow> string \<Rightarrow> json \<Rightarrow> nat \<Rightarrow> string list \<Rightarrow> world \<Rightarrow> json list \<times> world" where
  "inline_loop ex html article_id i [] w = ([], w)"
| "inline_loop ex html article_id i (attachment_id # ms) w =
     (case download_attachment ex (JStr (attachment_prefix @ attachment_id))
             (inline_filename html article_id i attachment_id) w of
        (filepath, w1) \<Rightarrow>
          (case inline_loop ex html article_id (i + 1) ms w1 of
             (rest, w2) \<Rightarrow>
               (case filepath of
                  None \<Rightarrow> (rest, w2)
                | Some p \<Rightarrow> (inline_record html article_id i attachment_id p # rest, w2))))"

text \<open>\<^verbatim>\<open>re.findall\<close> takes a string only.\<close>

definition extract_attachments_from_html ::
    "exporter \<Rightarrow> json \<Rightarrow> json \<Rightarrow> world \<Rightarrow> (py_error + json list) \<times> world" where
  "extract_attachments_from_html ex html_content article_id w =
     (case html_content of
        JStr html \<Rightarrow>
          (case inline_loop ex html article_id 0 (findall_ids html) w of
             (recs, w1) \<Rightarrow> (Inr recs, w1))
      | _ \<Rightarrow> (Inl TypeError, w))"

section \<open>The export stages\<close>

definition structured_record :: "json \<Rightarrow> string \<Rightarrow> string \<Rightarrow> json" where
  "structured_record content_url filepath filename =
     JObj [(''original_url'', content_url),
           (''local_path'', JStr filepath),
           (''filename'', JStr filename)]"

text \<open>The loop over \<^verbatim>\<open>article['attachments']\<close>.\<close>

fun structured_loop ::
    "exporter \<Rightarrow> json \<Rightarrow> json list \<Rightarrow> world \<Rightarrow> (py_error + json list) \<times> world" where
  "structured_loop ex article [] w = (Inr [], w)"
| "structured_loop ex article (attachment # rest) w =
     (case py_getitem article ''id'' of
        Inl e \<Rightarrow> (Inl e, w)
      | Inr article_id \<Rightarrow>
          (case py_getitem attachment ''file_name'' of
             Inl e \<Rightarrow> (Inl e, w)
           | Inr file_name \<Rightarrow>
               (case py_getitem attachment ''content_url'' of
                  Inl e \<Rightarrow> (Inl e, w)
                | Inr content_url \<Rightarrow>
                    (case download_attachment ex content_url
                            (py_str article_id @ ''_'' @ py_str file_name) w of
                       (filepath, w1) \<Rightarrow>
                         (case structured_loop ex article rest w1 of
                            (Inl e, w2) \<Rightarrow> (Inl e, w2)
                          | (Inr recs, w2) \<Rightarrow>
                              (case filepath of
                                 None \<Rightarrow> (Inr recs, w2)
                               | Some p \<Rightarrow>
                                   (Inr (structured_record content_url p
                                           (py_str article_id @ ''_'' @ py_str file_name) # recs),
                                    w2)))))))"

definition structured_attachments ::
    "exporter \<Rightarrow> json \<Rightarrow> world \<Rightarrow> (py_error + json list) \<times> world" where
  "structured_attachments ex article w =
     (case py_get article ''attachments'' JNull of
        Inl e \<Rightarrow> (Inl e, w)
      | Inr v \<Rightarrow>
          if truthy v
          then (case py_iter v of
                  Inl e \<Rightarrow> (Inl e, w)
                | Inr atts \<Rightarrow> structured_loop ex article atts w)
          else (Inr [], w))"

definition inline_attachments ::
    "exporter \<Rightarrow> json \<Rightarrow> world \<Rightarrow> (py_error + json list) \<times> world" where
  "inline_attachments ex article w =
     (case py_get article ''body'' JNull of
        Inl e \<Rightarrow> (Inl e, w)
      | Inr body \<Rightarrow>
          if truthy body
          then (case py_getitem article ''id'' of
                  Inl e \<Rightarrow> (Inl e, w)
                | Inr article_id \<Rightarrow> extract_attachments_from_html ex body article_id w)
          else (Inr [], w))"

text \<open>
  The body of the loop over the articles. The list under \<open>downloaded_attachments\<close> is
  set empty first and receives the structured records, then the inline ones; an
  exception leaves the loop and the function.
\<close>

definition export_article :: "exporter \<Rightarrow> json \<Rightarrow> world \<Rightarrow> (py_error + json) \<times> world" where
  "export_article ex article w =
     (case py_setitem article ''downloaded_attachments'' (JArr []) of
        Inl e \<Rightarrow> (Inl e, w)
      | Inr a1 \<Rightarrow>
          (case structured_attachments ex a1 w of
             (Inl e, w1) \<Rightarrow> (Inl e, w1)
           | (Inr recs1, w1) \<Rightarrow>
               (case inline_attachments ex a1 w1 of
                  (Inl e, w2) \<Rightarrow> (Inl e, w2)
                | (Inr recs2, w2) \<Rightarrow>
                    (py_setitem a1 ''downloaded_attachments'' (JArr (recs1 @ recs2)), w2))))"

fun articles_loop :: "exporter \<Rightarrow> json list \<Rightarrow> world \<Rightarrow> (py_error + json list) \<times> world" where
  "articles_loop ex [] w = (Inr [], w)"
| "articles_loop ex (article # rest) w =
     (case export_article ex article w of
        (Inl e, w1) \<Rightarrow> (Inl e, w1)
      | (Inr article', w1) \<Rightarrow>
          (case articles_loop ex rest w1 of
             (Inl e, w2) \<Rightarrow> (Inl e, w2)
           | (Inr rest', w2) \<Rightarrow> (Inr (article' # rest'), w2)))"

text \<open>
  \<^verbatim>\<open>json.dump\<close> into a file of the export directory: \<^verbatim>\<open>open\<close> raises an \<^verbatim>\<open>OSError\<close>
  for a path that cannot be written. The text of the model, code points below 256, can
  always be encoded, so writing the value itself raises nothing.
\<close>

definition write_json :: "string \<Rightarrow> json \<Rightarrow> world \<Rightarrow> py_error + world" where
  "write_json path v w =
     (if writable w path then Inr (w\<lparr>trace := trace w @ [Write path (JsonText v)]\<rparr>)
      else Inl OSError)"

definition export_categories :: "exporter \<Rightarrow> world \<Rightarrow> ((py_error + json list) \<times> world) option" where
  "export_categories ex w =
     (case get_all_paginated ex ''categories'' ''categories'' w of
        None \<Rightarrow> None
      | Some (Inl e, w1) \<Rightarrow> Some (Inl e, w1)
      | Some (Inr categories, w1) \<Rightarrow>
          (case write_json (export_dir ex @ ''/categories.json'') (JArr categories) w1 of
             Inl e \<Rightarrow> Some (Inl e, w1)
           | Inr w2 \<Rightarrow> Some (Inr categories, w2)))"

definition export_sections :: "exporter \<Rightarrow> world \<Rightarrow> ((py_error + json list) \<times> world) option" where
  "export_sections ex w =
     (case get_all_paginated ex ''sections'' ''sections'' w of
        None \<Rightarrow> None
      | Some (Inl e, w1) \<Rightarrow> Some (Inl e, w1)
      | Some (Inr sections, w1) \<Rightarrow>
          (case write_json (export_dir ex @ ''/sections.json'') (JArr sections) w1 of
             Inl e \<Rightarrow> Some (Inl e, w1)
           | Inr w2 \<Rightarrow> Some (Inr sections, w2)))"

definition export_articles :: "exporter \<Rightarrow> world \<Rightarrow> ((py_error + json list) \<times> world) option" where
  "export_articles ex w =
     (case get_all_paginated ex ''articles'' ''articles'' w of
        None \<Rightarrow> None
      | Some (Inl e, w1) \<Rightarrow> Some (Inl e, w1)
      | Some (Inr articles, w1) \<Rightarrow>
          (case articles_loop ex articles w1 of
             (Inl e, w2) \<Rightarrow> Some (Inl e, w2)
           | (Inr articles', w2) \<Rightarrow>
               (case write_json (export_dir ex @ ''/articles.json'') (JArr articles') w2 of
                  Inl e \<Rightarrow> Some (Inl e, w2)
                | Inr w3 \<Rightarrow> Some (Inr articles', w3))))"

text \<open>
  \<open>export_themes\<close> catches every exception of its request and of its file. It calls
  \<open>make_request\<close> itself, one call higher than \<open>get_all_paginated\<close> does.
\<close>

definition export_themes :: "exporter \<Rightarrow> world \<Rightarrow> world" where
  "export_themes ex w =
     (case make_request_at (Suc (retry_depth w)) (JStr (hc_base_url ex @ ''/themes'')) w of
        (Inl e, w1) \<Rightarrow> w1
      | (Inr theme_data, w1) \<Rightarrow>
          if truthy theme_data
          then (case write_json (export_dir ex @ ''/themes.json'') theme_data w1 of
                  Inl e \<Rightarrow> w1
                | Inr w2 \<Rightarrow> w2)
          else w1)"

definition manifest :: "exporter \<Rightarrow> world \<Rightarrow> nat \<Rightarrow> nat \<Rightarrow> nat \<Rightarrow> json" where
  "manifest ex w nc ns na =
     JObj [(''export_date'', JStr (clock w)),
           (''subdomain'', JStr (subdomain ex)),
           (''base_url'', JStr (''https://'' @ subdomain ex @ ''.zendesk.com'')),
           (''total_categories'', JNum (int nc)),
           (''total_sections'', JNum (int ns)),
           (''total_articles'', JNum (int na))]"

definition export_all :: "exporter \<Rightarrow> world \<Rightarrow> ((py_error + unit) \<times> world) option" where
  "export_all ex w =
     (case export_categories ex w of
        None \<Rightarrow> None
      | Some (Inl e, w1) \<Rightarrow> Some (Inl e, w1)
      | Some (Inr categories, w1) \<Rightarrow>
          (case export_sections ex w1 of
             None \<Rightarrow> None
           | Some (Inl e, w2) \<Rightarrow> Some (Inl e, w2)
           | Some (Inr sections, w2) \<Rightarrow>
               (case export_articles ex w2 of
                  None \<Rightarrow> None
                | Some (Inl e, w3) \<Rightarrow> Some (Inl e, w3)
                | Some (Inr articles, w3) \<Rightarrow>
                    (case write_json (export_dir ex @ ''/manifest.json'')
                            (manifest ex w (length categories) (length sections)
                               (length articles)) (export_themes ex w3) of
                       Inl e \<Rightarrow> Some (Inl e, export_themes ex w3)
                     | Inr w4 \<Rightarrow> Some (Inr (), w4)))))"

section \<open>Describing runs\<close>

text \<open>The worlds after a rate-limit wait and after the pacing delay of the loop.\<close>

definition slept :: "int \<Rightarrow> world \<Rightarrow> world" where
  "slept secs w = w\<lparr>trace := trace w @ [Sleep secs]\<rparr>"

definition paused :: "world \<Rightarrow> world" where
  "paused w = w\<lparr>trace := trace w @ [Pause]\<rparr>"

text \<open>
  How \<open>make_request\<close> classifies a result. \<open>rate_limited lim r secs\<close>: a 429 whose wait,
  the integer of the Retry-After header or 60 without the header, is a length that
  \<^verbatim>\<open>time.sleep\<close> accepts where the platform's longest sleep is \<open>lim\<close>. \<open>page_of r d\<close>: a
  response that passes the status check and decodes to \<open>d\<close>. \<open>failed r\<close>: no response, or
  an error status other than 429. \<open>no_data r\<close>: a result for which \<open>make_request\<close>
  returns nothing truthy.
\<close>

definition is_429 :: "http_result \<Rightarrow> bool" where
  "is_429 r = (case r of RequestException \<Rightarrow> False | Response st ra body c \<Rightarrow> st = 429)"

definition rate_limited :: "int \<Rightarrow> http_result \<Rightarrow> int \<Rightarrow> bool" where
  "rate_limited lim r secs =
     (case r of
        RequestException \<Rightarrow> False
      | Response st ra body c \<Rightarrow>
          st = 429 \<and> (case ra of None \<Rightarrow> Inr 60 | Some s \<Rightarrow> py_int s) = Inr secs
          \<and> 0 \<le> secs \<and> secs \<le> 9223372036 \<and> secs \<le> lim)"

definition page_of :: "http_result \<Rightarrow> json \<Rightarrow> bool" where
  "page_of r d =
     (case r of
        RequestException \<Rightarrow> False
      | Response st ra body c \<Rightarrow> st \<noteq> 429 \<and> \<not> http_error st \<and> body = Some d)"

definition failed :: "http_result \<Rightarrow> bool" where
  "failed r =
     (case r of
        RequestException \<Rightarrow> True
      | Response st ra body c \<Rightarrow> st \<noteq> 429 \<and> http_error st)"

definition no_data :: "http_result \<Rightarrow> bool" where
  "no_data r =
     (case r of
        RequestException \<Rightarrow> True
      | Response st ra body c \<Rightarrow>
          st \<noteq> 429
          \<and> (http_error st \<or> (case body of None \<Rightarrow> True | Some d \<Rightarrow> \<not> truthy d)))"

text \<open>The next-page cursor of a page and the items under a key, as the loop reads them.\<close>

definition cursor :: "(string \<times> json) list \<Rightarrow> json" where
  "cursor p = (case map_of p ''next_page'' of None \<Rightarrow> JNull | Some v \<Rightarrow> v)"

definition items_under :: "string \<Rightarrow> (string \<times> json) list \<Rightarrow> py_error + json list" where
  "items_under key p = py_iter (case map_of p key of None \<Rightarrow> JArr [] | Some v \<Rightarrow> v)"

text \<open>The world after pages were fetched at the targets \<open>us\<close>, one GET and one pause each.\<close>

fun fetched :: "json list \<Rightarrow> world \<Rightarrow> world" where
  "fetched [] w = w"
| "fetched (u # us) w = fetched us (paused (advance u w))"

text \<open>The world after the rate-limited attempts at \<open>url\<close> with the waits \<open>ds\<close>.\<close>

fun retried :: "json \<Rightarrow> int list \<Rightarrow> world \<Rightarrow> world" where
  "retried url [] w = w"
| "retried url (d # ds) w = retried url ds (slept d (advance url w))"

text \<open>
  When \<open>download_attachment\<close> saves a file: the result \<open>r\<close> of its request is a
  response without an error status, and the path of the file can be written.
\<close>

definition downloadable :: "http_result \<Rightarrow> bool" where
  "downloadable r =
     (case r of RequestException \<Rightarrow> False | Response st ra body c \<Rightarrow> \<not> http_error st)"

definition attachment_path :: "exporter \<Rightarrow> string \<Rightarrow> string" where
  "attachment_path ex filename = os_path_join (export_dir ex) [''attachments'', filename]"

text \<open>The values a record of \<open>downloaded_attachments\<close> holds under a key.\<close>

definition field :: "string \<Rightarrow> json \<Rightarrow> json option" where
  "field k r = (case r of JObj kvs \<Rightarrow> map_of kvs k | _ \<Rightarrow> None)"

text \<open>The records an exported article carries, and the file names in them.\<close>

definition downloaded :: "json \<Rightarrow> json list" where
  "downloaded a =
     (case field ''downloaded_attachments'' a of Some (JArr recs) \<Rightarrow> recs | _ \<Rightarrow> [])"

definition record_filenames :: "json \<Rightarrow> json option list" where
  "record_filenames a = map (field ''filename'') (downloaded a)"

text \<open>
  \<open>img_tag url alt html\<close>: the markup holds an image tag with the URL as its \<open>src\<close> and,
  after it in the same tag, the alternate text \<open>alt\<close>.
\<close>

definition img_tag :: "string \<Rightarrow> string \<Rightarrow> string \<Rightarrow> bool" where
  "img_tag url alt html \<longleftrightarrow>
     (\<exists>pre a b rest.
        html = pre @ ''<img'' @ a @ ''src='' @ [dq] @ url @ [dq] @ b
                 @ ''alt='' @ [dq] @ alt @ [dq] @ rest
        \<and> CHR ''>'' \<notin> set a \<and> CHR ''>'' \<notin> set b \<and> dq \<notin> set alt)"

text \<open>
  \<open>match_at html k\<close>: the attachment pattern matches at position \<open>k\<close> of the markup, that
  is, the prefix stands there and a digit follows it.
\<close>

definition match_at :: "string \<Rightarrow> nat \<Rightarrow> bool" where
  "match_at html k =
     (starts_with attachment_prefix (drop k html)
      \<and> (case drop (k + length attachment_prefix) html of [] \<Rightarrow> False | c # s \<Rightarrow> is_digit c))"

text \<open>An article body that refers to one attachment twice, once in an image tag.\<close>

definition body_two_references :: string where
  "body_two_references =
     ''<img src='' @ [dq] @ attachment_prefix @ ''12'' @ [dq] @ '' alt='' @ [dq] @ ''a.png''
       @ [dq] @ ''><a href='' @ [dq] @ attachment_prefix @ ''12'' @ [dq] @ ''>again</a>''"

text \<open>
  Two articles for examples: one with two structured attachments of the same declared
  name, one with a structured attachment and the body above.
\<close>

definition article_same_names :: json where
  "article_same_names =
     JObj [(''id'', JNum 7),
           (''attachments'',
            JArr [JObj [(''file_name'', JStr ''image.png''),
                        (''content_url'', JStr ''https://files.example/1'')],
                  JObj [(''file_name'', JStr ''image.png''),
                        (''content_url'', JStr ''https://files.example/2'')]])]"

definition article_both_kinds :: json where
  "article_both_kinds =
     JObj [(''id'', JNum 7),
           (''title'', JStr ''How to''),
           (''attachments'',
            JArr [JObj [(''file_name'', JStr ''doc.pdf''),
                        (''content_url'', JStr ''https://files.example/3'')]]),
           (''body'', JStr body_two_references)]"

text \<open>An article that comes with a \<open>downloaded_attachments\<close> field of its own.\<close>

definition article_upstream_field :: "(string \<times> json) list" where
  "article_upstream_field =
     [(''id'', JNum 7),
      (''downloaded_attachments'', JArr [JStr ''from upstream'']),
      (''body'', JStr body_two_references)]"

text \<open>
  The records for which the export of an article raises nothing. An attachment entry is
  a dictionary with \<open>file_name\<close> and \<open>content_url\<close>. An article is a dictionary; when it
  has attachments they are well-formed entries and it has an \<open>id\<close>; when it has a body
  the body is a string and it has an \<open>id\<close>.
\<close>

definition well_formed_attachment :: "json \<Rightarrow> bool" where
  "well_formed_attachment att =
     (case att of
        JObj kvs \<Rightarrow> map_of kvs ''file_name'' \<noteq> None \<and> map_of kvs ''content_url'' \<noteq> None
      | _ \<Rightarrow> False)"

definition well_formed_article :: "json \<Rightarrow> bool" where
  "well_formed_article a =
     (case a of
        JObj kvs \<Rightarrow>
          (truthy (case map_of kvs ''attachments'' of None \<Rightarrow> JNull | Some v \<Rightarrow> v) \<longrightarrow>
             map_of kvs ''id'' \<noteq> None
             \<and> (case py_iter (case map_of kvs ''attachments'' of None \<Rightarrow> JNull | Some v \<Rightarrow> v) of
                  Inl e \<Rightarrow> False
                | Inr atts \<Rightarrow> list_all well_formed_attachment atts))
          \<and> (truthy (case map_of kvs ''body'' of None \<Rightarrow> JNull | Some v \<Rightarrow> v) \<longrightarrow>
               map_of kvs ''id'' \<noteq> None
               \<and> (case map_of kvs ''body'' of Some (JStr s) \<Rightarrow> True | _ \<Rightarrow> False))
      | _ \<Rightarrow> False)"

text \<open>
  A page of a listing as the exporter can take it: a dictionary whose values under the
  three listing keys, where present, can be iterated, the articles being well-formed.
\<close>

definition listing_page :: "json \<Rightarrow> bool" where
  "listing_page d =
     (case d of
        JObj p \<Rightarrow>
          (case items_under ''categories'' p of Inl e \<Rightarrow> False | Inr xs \<Rightarrow> True)
          \<and> (case items_under ''sections'' p of Inl e \<Rightarrow> False | Inr xs \<Rightarrow> True)
          \<and> (case items_under ''articles'' p of
                Inl e \<Rightarrow> False
              | Inr xs \<Rightarrow> list_all well_formed_article xs)
      | _ \<Rightarrow> False)"

text \<open>
  A result that makes no stage raise: no response, an error status, a 429 with a wait
  that can be slept, a body that is not JSON or is empty, or a page as above.
\<close>

definition benign_response :: "int \<Rightarrow> http_result \<Rightarrow> bool" where
  "benign_response lim r =
     (case r of
        RequestException \<Rightarrow> True
      | Response st ra body c \<Rightarrow>
          if st = 429
          then (case (case ra of None \<Rightarrow> Inr 60 | Some s \<Rightarrow> py_int s) of
                  Inl e \<Rightarrow> False
                | Inr secs \<Rightarrow> 0 \<le> secs \<and> secs \<le> 9223372036 \<and> secs \<le> lim)
          else http_error st
               \<or> (case body of None \<Rightarrow> True | Some d \<Rightarrow> \<not> truthy d \<or> listing_page d))"

text \<open>
  A server all of whose results are benign; one that never answers 429 more than
  \<open>retry_depth\<close> times in a row, so that the retries fit the depth of calls; and one that
  answers no request from the \<open>N\<close>-th on (a run against it makes finitely many
  successful requests).
\<close>

definition benign :: "world \<Rightarrow> bool" where
  "benign w = (\<forall>n. benign_response (sleep_max w) (responses w n))"

definition retries_fit :: "world \<Rightarrow> bool" where
  "retries_fit w = (\<forall>n. \<exists>i\<le>retry_depth w. \<not> is_429 (responses w (n + i)))"

definition quiet_from :: "nat \<Rightarrow> world \<Rightarrow> bool" where
  "quiet_from N w = (\<forall>n\<ge>N. responses w n = RequestException)"

text \<open>
  \<open>later k w w'\<close>: \<open>w'\<close> is the world \<open>w\<close> after \<open>k\<close> more requests, on the same machine.
\<close>

definition later :: "nat \<Rightarrow> world \<Rightarrow> world \<Rightarrow> bool" where
  "later k w w' =
     (responses w' = (\<lambda>n. responses w (n + k)) \<and> writable w' = writable w
      \<and> retry_depth w' = retry_depth w \<and> sleep_max w' = sleep_max w)"

text \<open>The four files that the stages write outside any handler can be written.\<close>

definition files_writable :: "exporter \<Rightarrow> world \<Rightarrow> bool" where
  "files_writable ex w =
     (writable w (export_dir ex @ ''/categories.json'')
      \<and> writable w (export_dir ex @ ''/sections.json'')
      \<and> writable w (export_dir ex @ ''/articles.json'')
      \<and> writable w (export_dir ex @ ''/manifest.json''))"

text \<open>Three listings whose only article has a body and no \<open>id\<close>.\<close>

definition responses_article_without_id :: "http_result list" where
  "responses_article_without_id =
     [Response 200 None (Some (JObj [(''categories'', JArr [JObj [(''id'', JNum 1)]])])) [],
      Response 200 None (Some (JObj [(''sections'', JArr [JObj [(''id'', JNum 2)]])])) [],
      Response 200 None
        (Some (JObj [(''articles'', JArr [JObj [(''title'', JStr ''Untitled''),
                                               (''body'', JStr ''text'')]])])) []]"

text \<open>Three listings whose only article has an attachment entry without \<open>file_name\<close>.\<close>

definition responses_attachment_without_name :: "http_result list" where
  "responses_attachment_without_name =
     [Response 200 None (Some (JObj [(''categories'', JArr [])])) [],
      Response 200 None (Some (JObj [(''sections'', JArr [])])) [],
      Response 200 None
        (Some (JObj [(''articles'',
           JArr [JObj [(''id'', JNum 3),
                       (''attachments'',
                        JArr [JObj [(''content_url'', JStr ''https://files.example/4'')]])]])])) []]"

text \<open>
  A rate limit, then three listings with one well-formed article, and a theme request
  that fails.
\<close>

definition responses_small_help_center :: "http_result list" where
  "responses_small_help_center =
     [Response 429 (Some ''2'') None [],
      Response 200 None (Some (JObj [(''categories'', JArr [JObj [(''id'', JNum 1)]])])) [],
      Response 200 None (Some (JObj [(''sections'', JArr [JObj [(''id'', JNum 2)]])])) [],
      Response 200 None (Some (JObj [(''articles'', JArr [article_both_kinds])])) [],
      Response 200 None None ''pdf'',
      Response 404 None None [],
      Response 200 None None ''png'',
      Response 500 None None []]"

text \<open>The targets of the GET requests of a trace.\<close>

fun gets :: "event list \<Rightarrow> json list" where
  "gets [] = []"
| "gets (Get u # es) = u # gets es"
| "gets (e # es) = gets es"

text \<open>The files written, with their contents.\<close>

fun writes :: "event list \<Rightarrow> (string \<times> file_body) list" where
  "writes [] = []"
| "writes (Write path b # es) = (path, b) # writes es"
| "writes (e # es) = writes es"

text \<open>
  A server that gives the results \<open>rs\<close> in order and cannot be reached afterwards, on a
  machine where every path can be written, 983 nested retries fit the depth of calls
  and a sleep of up to 9223000000 seconds is accepted (the platform refuses a sleep that
  ends after the last instant of its clock, so the longest one depends on how long the
  machine has been running).
\<close>

definition script :: "http_result list \<Rightarrow> nat \<Rightarrow> http_result" where
  "script rs n = (if n < length rs then rs ! n else RequestException)"

definition world0 :: "http_result list \<Rightarrow> world" where
  "world0 rs = \<lparr>responses = script rs, writable = (\<lambda>path. True), clock = ''2024-01-01 00:00:00'',
     trace = [], retry_depth = 983, sleep_max = 9223000000\<rparr>"

text \<open>
  The same machine with a server that answers every request with 429, to retry at once;
  with one whose every answer is a page with a cursor; and with a server that answers
  nothing where the file of the categories cannot be written.
\<close>

definition world_always_429 :: world where
  "world_always_429 = (world0 [])\<lparr>responses := (\<lambda>n. Response 429 (Some ''0'') None [])\<rparr>"

definition world_endless_pages :: world where
  "world_endless_pages =
     (world0 [])\<lparr>responses := (\<lambda>n. Response 200 None
        (Some (JObj [(''categories'', JArr [JObj [(''id'', JNum 1)]]),
                     (''next_page'', JStr ''https://userology.zendesk.com/next'')])) [])\<rparr>"

definition world_read_only :: world where
  "world_read_only =
     (world0 [])\<lparr>writable := (\<lambda>path. path \<noteq> ''zendesk_export_userology/categories.json'')\<rparr>"

definition exporter0 :: exporter where
  "exporter0 = \<lparr>subdomain = ''userology'', email = ''admin@example.com'', api_token = ''token''\<rparr>"

section \<open>Facts about the fetcher\<close>

lemma responses_advance [simp]: "responses (advance u w) n = responses w (Suc n)"
  by (simp add: advance_def)

lemma trace_advance [simp]: "trace (advance u w) = trace w @ [Get u]"
  by (simp add: advance_def)

lemma responses_paused [simp]: "responses (paused w) = responses w"
  by (simp add: paused_def)

lemma trace_paused [simp]: "trace (paused w) = trace w @ [Pause]"
  by (simp add: paused_def)

lemma responses_slept [simp]: "responses (slept d w) = responses w"
  by (simp add: slept_def)

lemma trace_slept [simp]: "trace (slept d w) = trace w @ [Sleep d]"
  by (simp add: slept_def)

lemma writable_paused [simp]: "writable (paused w) = writable w"
  by (simp add: paused_def)

lemma writable_slept [simp]: "writable (slept d w) = writable w"
  by (simp add: slept_def)

lemma retry_depth_advance [simp]: "retry_depth (advance u w) = retry_depth w"
  by (simp add: advance_def)

lemma retry_depth_paused [simp]: "retry_depth (paused w) = retry_depth w"
  by (simp add: paused_def)

lemma retry_depth_slept [simp]: "retry_depth (slept d w) = retry_depth w"
  by (simp add: slept_def)

lemma sleep_max_advance [simp]: "sleep_max (advance u w) = sleep_max w"
  by (simp add: advance_def)

lemma sleep_max_paused [simp]: "sleep_max (paused w) = sleep_max w"
  by (simp add: paused_def)

lemma sleep_max_slept [simp]: "sleep_max (slept d w) = sleep_max w"
  by (simp add: slept_def)

lemma gets_append [simp]: "gets (xs @ ys) = gets xs @ gets ys"
  by (induction xs rule: gets.induct) simp_all

lemma writes_append [simp]: "writes (xs @ ys) = writes xs @ writes ys"
  by (induction xs rule: writes.induct) simp_all

lemma responses_fetched [simp]: "responses (fetched us w) n = responses w (n + length us)"
  by (induction us arbitrary: w) simp_all

lemma trace_fetched: "trace (fetched us w) = trace w @ concat (map (\<lambda>u. [Get u, Pause]) us)"
  by (induction us arbitrary: w) simp_all

lemma gets_fetched [simp]: "gets (trace (fetched us w)) = gets (trace w) @ us"
  by (induction us arbitrary: w) simp_all

lemma fetched_snoc: "fetched (us @ [u]) w = paused (advance u (fetched us w))"
  by (induction us arbitrary: w) simp_all

lemma retry_depth_fetched [simp]: "retry_depth (fetched us w) = retry_depth w"
  by (induction us arbitrary: w) simp_all

lemma retry_depth_retried [simp]: "retry_depth (retried url ds w) = retry_depth w"
  by (induction ds arbitrary: w) simp_all

lemma sleep_max_retried [simp]: "sleep_max (retried url ds w) = sleep_max w"
  by (induction ds arbitrary: w) simp_all

lemma responses_retried [simp]: "responses (retried url ds w) n = responses w (n + length ds)"
  by (induction ds arbitrary: w) simp_all

lemma trace_retried:
  "trace (retried url ds w) = trace w @ concat (map (\<lambda>d. [Get url, Sleep d]) ds)"
  by (induction ds arbitrary: w) simp_all

lemma cursor_Nil [simp]: "cursor [] = JNull"
  by (simp add: cursor_def)

lemma gets_retried [simp]:
  "gets (trace (retried url ds w)) = gets (trace w) @ replicate (length ds) url"
  by (induction ds arbitrary: w) (simp_all add: replicate_app_Cons_same)

text \<open>One call of \<open>make_request\<close>, by the kind of the result it gets.\<close>

lemma make_request_at_page:
  "page_of (responses w 0) d \<Longrightarrow> make_request_at k url w = (Inr d, advance url w)"
  by (subst make_request_at.simps)
     (auto simp: session_get_def page_of_def split: http_result.splits)

lemma make_request_at_no_data:
  "no_data (responses w 0) \<Longrightarrow>
     \<exists>d. make_request_at k url w = (Inr d, advance url w) \<and> \<not> truthy d"
  by (subst make_request_at.simps)
     (auto simp: session_get_def no_data_def split: http_result.splits option.splits)

lemma make_request_at_rate_limited:
  "rate_limited (sleep_max w) (responses w 0) secs \<Longrightarrow>
     make_request_at (Suc k) url w = make_request_at k url (slept secs (advance url w))"
  by (subst make_request_at.simps)
     (auto simp: session_get_def rate_limited_def time_sleep_def slept_def
           split: http_result.splits option.splits sum.splits)

lemma make_request_at_no_depth:
  "rate_limited (sleep_max w) (responses w 0) secs \<Longrightarrow>
     make_request_at 0 url w = (Inl RecursionError, slept secs (advance url w))"
  by (subst make_request_at.simps)
     (auto simp: session_get_def rate_limited_def time_sleep_def slept_def
           split: http_result.splits option.splits sum.splits)

lemma make_request_page:
  "page_of (responses w 0) d \<Longrightarrow> make_request url w = Some (Inr d, advance url w)"
  by (simp add: make_request_def make_request_at_page)

lemma make_request_no_data:
  "no_data (responses w 0) \<Longrightarrow> \<exists>d. make_request url w = Some (Inr d, advance url w) \<and> \<not> truthy d"
  using make_request_at_no_data [of w "retry_depth w" url] by (simp add: make_request_def)

lemma paginate_done: "\<not> truthy url \<Longrightarrow> paginate key url acc w = Some (Inr acc, w)"
  by (subst paginate.simps) simp

lemma paginate_no_data:
  "truthy url \<Longrightarrow> no_data (responses w 0) \<Longrightarrow>
     paginate key url acc w = Some (Inr acc, advance url w)"
  using make_request_no_data [of w url]
  by (subst paginate.simps) auto

lemma paginate_page:
  "truthy url \<Longrightarrow> page_of (responses w 0) (JObj p) \<Longrightarrow> p \<noteq> [] \<Longrightarrow>
   items_under key p = Inr its \<Longrightarrow>
     paginate key url acc w = paginate key (cursor p) (acc @ its) (paused (advance url w))"
  by (subst paginate.simps)
     (simp add: make_request_page items_under_def cursor_def paused_def)

text \<open>
  Rate-limited attempts with the waits \<open>ds\<close>: each is a nested call, and the request
  goes on below them when they fit the depth; when they do not, the call that no longer
  fits raises.
\<close>

lemma make_request_at_retried:
  "\<forall>i<length ds. rate_limited (sleep_max w) (responses w i) (ds ! i) \<Longrightarrow>
     make_request_at (length ds + k) url w = make_request_at k url (retried url ds w)"
proof (induction ds arbitrary: w)
  case Nil
  then show ?case by simp
next
  case (Cons d ds)
  from Cons.prems have first: "rate_limited (sleep_max w) (responses w 0) d"
    by auto
  from Cons.prems have rest:
    "\<forall>i<length ds. rate_limited (sleep_max (slept d (advance url w)))
        (responses (slept d (advance url w)) i) (ds ! i)"
    by auto
  show ?case
    using make_request_at_rate_limited [OF first, of "length ds + k" url] Cons.IH [OF rest]
    by simp
qed

lemma make_request_at_exhausted:
  assumes "\<forall>i<length ds. rate_limited (sleep_max w) (responses w i) (ds ! i)"
    and "length ds = Suc k"
  shows "make_request_at k url w = (Inl RecursionError, retried url ds w)"
proof -
  from assms(2) obtain es d where ds: "ds = es @ [d]" and len: "length es = k"
    by (cases ds rule: rev_cases) auto
  have front: "\<forall>i<length es. rate_limited (sleep_max w) (responses w i) (es ! i)"
  proof (intro allI impI)
    fix i
    assume "i < length es"
    with assms(1) [rule_format, of i] show "rate_limited (sleep_max w) (responses w i) (es ! i)"
      by (simp add: ds nth_append)
  qed
  from assms(1) [rule_format, of "length es"]
  have "rate_limited (sleep_max (retried url es w)) (responses (retried url es w) 0) d"
    by (simp add: ds)
  from make_request_at_no_depth [OF this, of url] make_request_at_retried [OF front, of 0 url]
  have "make_request_at k url w = (Inl RecursionError, slept d (advance url (retried url es w)))"
    by (simp add: len)
  moreover have "retried url (es @ [d]) w = slept d (advance url (retried url es w))"
    by (induction es arbitrary: w) simp_all
  ultimately show ?thesis
    by (simp add: ds)
qed

lemma make_request_retried:
  assumes "\<forall>i<length ds. rate_limited (sleep_max w) (responses w i) (ds ! i)"
    and "length ds \<le> retry_depth w"
  shows "make_request url w
           = Some (make_request_at (retry_depth w - length ds) url (retried url ds w))"
  using make_request_at_retried [OF assms(1), of "retry_depth w - length ds" url] assms(2)
  by (simp add: make_request_def)

text \<open>Against the server that answers 429 without end, the 984th call raises.\<close>

lemma py_int_0: "py_int ''0'' = Inr 0"
  by (simp add: py_int_def strip_def is_space_def is_digit_def digits_value_def max_str_digits_def)

lemma make_request_always_429:
  "make_request url world_always_429
     = Some (Inl RecursionError, retried url (replicate 984 0) world_always_429)"
proof -
  have "\<forall>i<length (replicate 984 (0::int)).
      rate_limited (sleep_max world_always_429) (responses world_always_429 i)
        (replicate 984 0 ! i)"
    by (simp add: world_always_429_def world0_def rate_limited_def py_int_0)
  moreover have "length (replicate 984 (0::int)) = Suc 983"
    by simp
  ultimately have "make_request_at 983 url world_always_429
      = (Inl RecursionError, retried url (replicate 984 0) world_always_429)"
    by (rule make_request_at_exhausted)
  moreover have "retry_depth world_always_429 = 983"
    by (simp add: world_always_429_def world0_def)
  ultimately show ?thesis
    by (simp add: make_request_def)
qed

lemma writes_retried [simp]: "writes (trace (retried url ds w)) = writes (trace w)"
  by (induction ds arbitrary: w) simp_all

lemma paginate_request:
  "truthy url \<Longrightarrow> make_request url w = Some (Inr (JObj p), w1) \<Longrightarrow> p \<noteq> [] \<Longrightarrow>
   items_under key p = Inr its \<Longrightarrow>
     paginate key url acc w = paginate key (cursor p) (acc @ its) (paused w1)"
  by (subst paginate.simps) (simp add: items_under_def cursor_def paused_def)

text \<open>Pages that all carry a cursor: the loop goes through them and stands at the last cursor.\<close>

lemma paginate_pages:
  assumes "truthy url"
    and "\<forall>i<length ps. page_of (responses w i) (JObj (ps ! i)) \<and> truthy (cursor (ps ! i))"
    and "list_all2 (\<lambda>p its. items_under key p = Inr its) ps iss"
  shows "paginate key url acc w =
           paginate key (last (url # map cursor ps)) (acc @ concat iss)
             (fetched (butlast (url # map cursor ps)) w)"
  using assms
proof (induction ps arbitrary: url acc w iss)
  case Nil
  then show ?case by simp
next
  case (Cons p ps)
  from Cons.prems(3) obtain its jss where iss: "iss = its # jss"
    and its: "items_under key p = Inr its"
    and jss: "list_all2 (\<lambda>p its. items_under key p = Inr its) ps jss"
    by (auto simp: list_all2_Cons1)
  from Cons.prems(2) have page: "page_of (responses w 0) (JObj p)" and cur: "truthy (cursor p)"
    by auto
  from cur have ne: "p \<noteq> []"
    by auto
  from Cons.prems(2) have rest:
    "\<forall>i<length ps. page_of (responses (paused (advance url w)) i) (JObj (ps ! i))
        \<and> truthy (cursor (ps ! i))"
    by auto
  have "paginate key url acc w = paginate key (cursor p) (acc @ its) (paused (advance url w))"
    by (rule paginate_page [OF Cons.prems(1) page ne its])
  also have "\<dots> = paginate key (last (cursor p # map cursor ps)) ((acc @ its) @ concat jss)
      (fetched (butlast (cursor p # map cursor ps)) (paused (advance url w)))"
    by (rule Cons.IH [OF cur rest jss])
  finally show ?case
    by (simp add: iss)
qed

lemma truthy_last_cursor:
  "truthy url \<Longrightarrow> \<forall>i<length ps. truthy (cursor (ps ! i)) \<Longrightarrow> truthy (last (url # map cursor ps))"
  by (cases ps rule: rev_cases) (auto simp: nth_append)

text \<open>
  The three ways a call goes on after its request: a wait and a nested call, an exception
  of the header or of the sleep, or a result.
\<close>

lemma make_request_at_kinds:
  obtains (limited) secs where "rate_limited (sleep_max w) (responses w 0) secs"
  | (raised) e where "\<forall>k. make_request_at k url w = (Inl e, advance url w)"
      and "is_429 (responses w 0)"
  | (returned) d where "\<forall>k. make_request_at k url w = (Inr d, advance url w)"
      and "\<not> is_429 (responses w 0)"
proof (cases "responses w 0")
  case RequestException
  then have "\<forall>k. make_request_at k url w = (Inr JNull, advance url w)"
    by (subst make_request_at.simps) (simp add: session_get_def)
  with RequestException returned show ?thesis
    by (simp add: is_429_def)
next
  case (Response st ra body c)
  show ?thesis
  proof (cases "st = 429")
    case False
    with Response have "\<forall>k. make_request_at k url w
        = (Inr (if http_error st then JNull else case body of None \<Rightarrow> JNull | Some d \<Rightarrow> d),
           advance url w)"
      by (subst make_request_at.simps) (simp add: session_get_def split: option.splits)
    with False Response returned show ?thesis
      by (simp add: is_429_def)
  next
    case True
    show ?thesis
    proof (cases "case ra of None \<Rightarrow> Inr 60 | Some s \<Rightarrow> py_int s")
      case (Inl e)
      with True Response have "\<forall>k. make_request_at k url w = (Inl e, advance url w)"
        by (subst make_request_at.simps) (simp add: session_get_def)
      with True Response raised show ?thesis
        by (simp add: is_429_def)
    next
      case (Inr secs)
      show ?thesis
      proof (cases "time_sleep secs (advance url w)")
        case (Inl e)
        with Inr True Response have "\<forall>k. make_request_at k url w = (Inl e, advance url w)"
          by (subst make_request_at.simps) (simp add: session_get_def)
        with True Response raised show ?thesis
          by (simp add: is_429_def)
      next
        case w2: (Inr w2)
        with Inr True Response have "rate_limited (sleep_max w) (responses w 0) secs"
          by (auto simp: rate_limited_def time_sleep_def split: if_splits)
        with limited show ?thesis .
      qed
    qed
  qed
qed

lemma rate_limited_429: "rate_limited lim r secs \<Longrightarrow> is_429 r"
  by (auto simp: rate_limited_def is_429_def split: http_result.splits)

text \<open>A request has issued its GET first; so has a loop that returns.\<close>

lemma make_request_at_trace:
  "\<exists>es. trace (snd (make_request_at k url w)) = trace w @ Get url # es"
proof (induction k arbitrary: w)
  case 0
  show ?case
  proof (cases rule: make_request_at_kinds [where w = w and url = url])
    case (limited secs)
    from make_request_at_no_depth [OF this, of url] show ?thesis
      by simp
  qed simp_all
next
  case (Suc k)
  show ?case
  proof (cases rule: make_request_at_kinds [where w = w and url = url])
    case (limited secs)
    from Suc [of "slept secs (advance url w)"] show ?thesis
      by (auto simp: make_request_at_rate_limited [OF limited])
  qed simp_all
qed

lemma make_request_trace:
  assumes "make_request url w = Some rw"
  shows "\<exists>es. trace (snd rw) = trace w @ Get url # es"
  using assms make_request_at_trace [of "retry_depth w" url w]
  by (auto simp: make_request_def)

lemma paginate_trace_aux:
  assumes "paginate key url acc w = Some rw"
  shows "(\<exists>es. trace (snd rw) = trace w @ es)
       \<and> (truthy url \<longrightarrow> (\<exists>es. trace (snd rw) = trace w @ Get url # es))"
  using assms
proof (induct rule: paginate.raw_induct [rotated 1, consumes 1])
  case (1 f key url acc w rw)
  show ?case
  proof (cases "truthy url")
    case False
    with 1(2) show ?thesis
      by auto
  next
    case url: True
    with 1(2) obtain r w1 where mr: "make_request url w = Some (r, w1)"
      by (cases "make_request url w") auto
    from make_request_trace [OF mr] obtain es where es: "trace w1 = trace w @ Get url # es"
      by auto
    have "\<exists>es. trace (snd rw) = trace w @ Get url # es"
    proof (cases "\<exists>data v items url'. r = Inr data \<and> truthy data
        \<and> py_get data key (JArr []) = Inr v \<and> py_iter v = Inr items
        \<and> py_get data ''next_page'' JNull = Inr url'")
      case True
      then obtain data v items url' where r: "r = Inr data" "truthy data"
        "py_get data key (JArr []) = Inr v" "py_iter v = Inr items"
        "py_get data ''next_page'' JNull = Inr url'"
        by blast
      with 1(2) mr url
      have "f key url' (acc @ items) (w1\<lparr>trace := trace w1 @ [Pause]\<rparr>) = Some rw"
        by simp
      from 1(1) [OF this] obtain es'
        where "trace (snd rw) = trace (w1\<lparr>trace := trace w1 @ [Pause]\<rparr>) @ es'"
        by blast
      with es show ?thesis
        by simp
    next
      case False
      with 1(2) mr url es show ?thesis
        by (auto split: sum.splits if_splits)
    qed
    with url show ?thesis
      by auto
  qed
qed

lemma paginate_trace:
  "paginate key url acc w = Some (r, w') \<Longrightarrow> truthy url \<Longrightarrow>
     \<exists>es. trace w' = trace w @ Get url # es"
  using paginate_trace_aux [of key url acc w "(r, w')"] by simp

lemma failed_no_data: "failed r \<Longrightarrow> no_data r"
  by (auto simp: failed_def no_data_def split: http_result.splits)

lemma last_butlast_targets: "butlast (url # map cursor ps) @ [last (url # map cursor ps)] = url # map cursor ps"
  by (rule append_butlast_last_id) simp

text \<open>Pages that all carry a cursor, then a request without data: the loop stops there.\<close>

lemma paginate_pages_then_no_data:
  assumes url: "truthy url"
    and pages: "\<forall>i<length ps. page_of (responses w i) (JObj (ps ! i)) \<and> truthy (cursor (ps ! i))"
    and items: "list_all2 (\<lambda>p its. items_under key p = Inr its) ps iss"
    and nd: "no_data (responses w (length ps))"
  shows "paginate key url acc w =
           Some (Inr (acc @ concat iss),
             advance (last (url # map cursor ps)) (fetched (butlast (url # map cursor ps)) w))"
proof -
  define u where "u = last (url # map cursor ps)"
  define v where "v = fetched (butlast (url # map cursor ps)) w"
  have u: "truthy u"
    unfolding u_def using truthy_last_cursor [OF url, of ps] pages by blast
  have len: "length (butlast (url # map cursor ps)) = length ps"
    by simp
  have nd': "no_data (responses v 0)"
    unfolding v_def using nd by (simp only: responses_fetched len) simp
  have "paginate key url acc w = paginate key u (acc @ concat iss) v"
    unfolding u_def v_def by (rule paginate_pages [OF url pages items])
  also have "\<dots> = Some (Inr (acc @ concat iss), advance u v)"
    by (rule paginate_no_data [OF u nd'])
  finally show ?thesis
    by (simp add: u_def v_def)
qed

text \<open>Pages that all carry a cursor, then a page without one: the loop ends after it.\<close>

lemma paginate_pages_then_last:
  assumes url: "truthy url"
    and pages: "\<forall>i<length qs. page_of (responses w i) (JObj (qs ! i)) \<and> truthy (cursor (qs ! i))"
    and items: "list_all2 (\<lambda>p its. items_under key p = Inr its) qs jss"
    and page: "page_of (responses w (length qs)) (JObj p)" and ne: "p \<noteq> []"
    and its: "items_under key p = Inr its"
    and last: "\<not> truthy (cursor p)"
  shows "paginate key url acc w =
           Some (Inr (acc @ concat jss @ its), fetched (url # map cursor qs) w)"
proof -
  define u where "u = last (url # map cursor qs)"
  define v where "v = fetched (butlast (url # map cursor qs)) w"
  have u: "truthy u"
    unfolding u_def using truthy_last_cursor [OF url, of qs] pages by blast
  have len: "length (butlast (url # map cursor qs)) = length qs"
    by simp
  have page': "page_of (responses v 0) (JObj p)"
    unfolding v_def using page by (simp only: responses_fetched len) simp
  have "paginate key url acc w = paginate key u (acc @ concat jss) v"
    unfolding u_def v_def by (rule paginate_pages [OF url pages items])
  also have "\<dots> = paginate key (cursor p) ((acc @ concat jss) @ its) (paused (advance u v))"
    by (rule paginate_page [OF u page' ne its])
  also have "\<dots> = Some (Inr (acc @ concat jss @ its), paused (advance u v))"
    using last by (simp add: paginate_done)
  also have "paused (advance u v) = fetched (butlast (url # map cursor qs) @ [u]) w"
    unfolding v_def by (simp only: fetched_snoc)
  also have "butlast (url # map cursor qs) @ [u] = url # map cursor qs"
    unfolding u_def by (rule last_butlast_targets)
  finally show ?thesis .
qed

lemma filter_truthy_cursors:
  "\<forall>i<length ps. P i \<and> truthy (cursor (ps ! i)) \<Longrightarrow> filter truthy (map cursor ps) = map cursor ps"
  by (auto simp: filter_id_conv in_set_conv_nth)

section \<open>The claims about the fetcher\<close>

text \<open>
  C1. When the server answers the requests of a listing with successful pages \<open>ps\<close>, each
  but the last carrying a cursor, and either the last page has no cursor or the request
  after it gives no data, \<open>get_all_paginated\<close> returns the items of the pages
  concatenated in page order, as they are (no sorting, no deduplication), and its GET
  requests are the first URL and then the cursors the pages carried, one request each:
  no target is requested twice unless the server hands the same cursor out twice.
\<close>

theorem get_all_paginated_concat:
  assumes pages: "\<forall>i<length ps. page_of (responses w i) (JObj (ps ! i)) \<and> ps ! i \<noteq> []"
    and items: "list_all2 (\<lambda>p its. items_under key p = Inr its) ps iss"
    and chain: "\<forall>i. Suc i < length ps \<longrightarrow> truthy (cursor (ps ! i))"
    and final: "(ps \<noteq> [] \<and> \<not> truthy (cursor (last ps))) \<or> no_data (responses w (length ps))"
  shows "\<exists>w'. get_all_paginated ex endpoint key w = Some (Inr (concat iss), w')
           \<and> gets (trace w') = gets (trace w)
                @ JStr (hc_base_url ex @ ''/'' @ endpoint) # filter truthy (map cursor ps)"
proof -
  define url where "url = JStr (hc_base_url ex @ ''/'' @ endpoint)"
  have url: "truthy url"
    by (simp add: url_def)
  show ?thesis
  proof (cases "ps \<noteq> [] \<and> \<not> truthy (cursor (last ps))")
    case True
    then obtain qs p where ps: "ps = qs @ [p]" and last: "\<not> truthy (cursor p)"
      by (cases ps rule: rev_cases) auto
    from items ps obtain jss its where iss: "iss = jss @ [its]"
      and jss: "list_all2 (\<lambda>p its. items_under key p = Inr its) qs jss"
      and its: "items_under key p = Inr its"
      by (auto simp: list_all2_append1 list_all2_Cons1)
    have qs: "\<forall>i<length qs. page_of (responses w i) (JObj (qs ! i)) \<and> truthy (cursor (qs ! i))"
    proof (intro allI impI)
      fix i assume i: "i < length qs"
      with pages ps have "page_of (responses w i) (JObj ((qs @ [p]) ! i))"
        by auto
      moreover from chain ps i have "truthy (cursor ((qs @ [p]) ! i))"
        by auto
      ultimately show "page_of (responses w i) (JObj (qs ! i)) \<and> truthy (cursor (qs ! i))"
        using i by (simp add: nth_append)
    qed
    from pages ps have page: "page_of (responses w (length qs)) (JObj p)" and ne: "p \<noteq> []"
      by (auto simp: nth_append split: if_splits)
    have "paginate key url [] w = Some (Inr ([] @ concat jss @ its), fetched (url # map cursor qs) w)"
      by (rule paginate_pages_then_last [OF url qs jss page ne its last])
    then have res: "get_all_paginated ex endpoint key w
        = Some (Inr (concat iss), fetched (url # map cursor qs) w)"
      by (simp add: get_all_paginated_def url_def iss)
    have "filter truthy (map cursor ps) = map cursor qs"
      using filter_truthy_cursors [OF qs] last by (simp add: ps)
    with res show ?thesis
      by (simp add: url_def)
  next
    case False
    with final have nd: "no_data (responses w (length ps))"
      by blast
    have all: "\<forall>i<length ps. page_of (responses w i) (JObj (ps ! i)) \<and> truthy (cursor (ps ! i))"
    proof (intro allI impI)
      fix i assume i: "i < length ps"
      have "truthy (cursor (ps ! i))"
      proof (cases "Suc i < length ps")
        case True
        with chain show ?thesis by blast
      next
        case last: False
        with i have "i = length ps - 1" and "ps \<noteq> []"
          by auto
        then have "ps ! i = last ps" and "ps \<noteq> []"
          by (simp_all add: last_conv_nth)
        with False show ?thesis
          by simp
      qed
      with pages i show "page_of (responses w i) (JObj (ps ! i)) \<and> truthy (cursor (ps ! i))"
        by blast
    qed
    have "paginate key url [] w = Some (Inr ([] @ concat iss),
        advance (last (url # map cursor ps)) (fetched (butlast (url # map cursor ps)) w))"
      by (rule paginate_pages_then_no_data [OF url all items nd])
    then have res: "get_all_paginated ex endpoint key w = Some (Inr (concat iss),
        advance (last (url # map cursor ps)) (fetched (butlast (url # map cursor ps)) w))"
      by (simp add: get_all_paginated_def url_def)
    have "gets (trace (advance (last (url # map cursor ps))
        (fetched (butlast (url # map cursor ps)) w))) = gets (trace w) @ url # map cursor ps"
      using last_butlast_targets [of url ps] by simp
    moreover have "filter truthy (map cursor ps) = map cursor ps"
      by (rule filter_truthy_cursors [OF all])
    ultimately show ?thesis
      using res by (simp add: url_def)
  qed
qed

theorem get_all_paginated_concat_witness:
  "\<exists>w'. get_all_paginated exporter0 ''articles'' ''articles''
          (world0 [Response 200 None
                     (Some (JObj [(''articles'', JArr [JNum 2, JNum 1]),
                                  (''next_page'', JStr ''https://next'')])) [],
                   Response 200 None
                     (Some (JObj [(''articles'', JArr [JNum 2]), (''next_page'', JNull)])) []])
        = Some (Inr [JNum 2, JNum 1, JNum 2], w')
      \<and> gets (trace w')
          = [JStr ''https://userology.zendesk.com/api/v2/help_center/articles'',
             JStr ''https://next'']"
  using get_all_paginated_concat
    [of "[[(''articles'', JArr [JNum 2, JNum 1]), (''next_page'', JStr ''https://next'')],
          [(''articles'', JArr [JNum 2]), (''next_page'', JNull)]]"
        "world0 [Response 200 None
                     (Some (JObj [(''articles'', JArr [JNum 2, JNum 1]),
                                  (''next_page'', JStr ''https://next'')])) [],
                   Response 200 None
                     (Some (JObj [(''articles'', JArr [JNum 2]), (''next_page'', JNull)])) []]"
        "''articles''" "[[JNum 2, JNum 1], [JNum 2]]" exporter0 "''articles''"]
  by (simp add: world0_def script_def page_of_def http_error_def items_under_def cursor_def
        exporter0_def hc_base_url_def less_Suc_eq numeral_2_eq_2)

text \<open>
  C2, as the code has it. After 429 responses whose Retry-After gives a wait that can be
  slept (60 without the header), as many in a row as nested calls fit the depth of
  calls, \<open>make_request\<close> has slept each wait and asked the same URL again, and goes on
  with the next response: a page after them is returned. When that page is the only one
  of a listing, \<open>get_all_paginated\<close> has requested the URL once per 429 and once more,
  and returns the items of that page once.
\<close>

theorem rate_limit_retry:
  assumes limited: "\<forall>i<length ds. rate_limited (sleep_max w) (responses w i) (ds ! i)"
    and depth: "length ds \<le> retry_depth w"
  shows "make_request url w
           = Some (make_request_at (retry_depth w - length ds) url (retried url ds w))
       \<and> trace (retried url ds w) = trace w @ concat (map (\<lambda>d. [Get url, Sleep d]) ds)
       \<and> (\<forall>d. page_of (responses w (length ds)) d \<longrightarrow>
             make_request url w = Some (Inr d, advance url (retried url ds w)))
       \<and> (\<forall>p its. page_of (responses w (length ds)) (JObj p) \<and> p \<noteq> []
                   \<and> items_under key p = Inr its \<and> \<not> truthy (cursor p) \<longrightarrow>
             (\<exists>w'. get_all_paginated ex endpoint key w = Some (Inr its, w')
                \<and> trace w' = trace w
                     @ concat (map (\<lambda>d. [Get (JStr (hc_base_url ex @ ''/'' @ endpoint)), Sleep d]) ds)
                     @ [Get (JStr (hc_base_url ex @ ''/'' @ endpoint)), Pause]))"
proof (intro conjI allI impI)
  show "make_request url w
      = Some (make_request_at (retry_depth w - length ds) url (retried url ds w))"
    by (rule make_request_retried [OF limited depth])
  show "trace (retried url ds w) = trace w @ concat (map (\<lambda>d. [Get url, Sleep d]) ds)"
    by (rule trace_retried)
next
  fix d
  assume "page_of (responses w (length ds)) d"
  then have "page_of (responses (retried url ds w) 0) d"
    by simp
  from make_request_at_page [OF this] make_request_retried [OF limited depth, of url]
  show "make_request url w = Some (Inr d, advance url (retried url ds w))"
    by simp
next
  fix p its
  assume a: "page_of (responses w (length ds)) (JObj p) \<and> p \<noteq> []
      \<and> items_under key p = Inr its \<and> \<not> truthy (cursor p)"
  define u where "u = JStr (hc_base_url ex @ ''/'' @ endpoint)"
  define v where "v = retried u ds w"
  have u: "truthy u"
    by (simp add: u_def)
  from a have page: "page_of (responses v 0) (JObj p)"
    by (simp add: v_def)
  from make_request_at_page [OF page] make_request_retried [OF limited depth, of u]
  have "make_request u w = Some (Inr (JObj p), advance u v)"
    by (simp add: v_def)
  from paginate_request [OF u this, of key its "[]"] a
  have "paginate key u [] w = paginate key (cursor p) ([] @ its) (paused (advance u v))"
    by simp
  also have "\<dots> = Some (Inr its, paused (advance u v))"
    using a by (simp add: paginate_done)
  finally have "get_all_paginated ex endpoint key w = Some (Inr its, paused (advance u v))"
    by (simp add: get_all_paginated_def u_def)
  moreover have "trace (paused (advance u v))
      = trace w @ concat (map (\<lambda>d. [Get u, Sleep d]) ds) @ [Get u, Pause]"
    by (simp add: v_def trace_retried)
  ultimately show "\<exists>w'. get_all_paginated ex endpoint key w = Some (Inr its, w')
      \<and> trace w' = trace w
           @ concat (map (\<lambda>d. [Get (JStr (hc_base_url ex @ ''/'' @ endpoint)), Sleep d]) ds)
           @ [Get (JStr (hc_base_url ex @ ''/'' @ endpoint)), Pause]"
    unfolding u_def by blast
qed

theorem rate_limit_retry_witness:
  "(\<exists>w'. get_all_paginated exporter0 ''articles'' ''articles''
          (world0 [Response 429 (Some ''120'') None [],
                   Response 200 None (Some (JObj [(''articles'', JArr [JNum 7])])) []])
        = Some (Inr [JNum 7], w')
      \<and> trace w'
          = [Get (JStr ''https://userology.zendesk.com/api/v2/help_center/articles''), Sleep 120,
             Get (JStr ''https://userology.zendesk.com/api/v2/help_center/articles''), Pause])
   \<and> (\<exists>w'. make_request (JStr ''https://themes'')
          (world0 [Response 429 None None [], Response 429 (Some ''120'') None [],
                   Response 200 None (Some (JObj [(''themes'', JArr [])])) []])
        = Some (Inr (JObj [(''themes'', JArr [])]), w')
      \<and> trace w'
          = [Get (JStr ''https://themes''), Sleep 60, Get (JStr ''https://themes''), Sleep 120,
             Get (JStr ''https://themes'')])"
proof -
  have py_int_120: "py_int ''120'' = Inr 120"
    by (simp add: py_int_def strip_def is_space_def is_digit_def digits_value_def max_str_digits_def)
  let ?v = "world0 [Response 429 None None [], Response 429 (Some ''120'') None [],
                   Response 200 None (Some (JObj [(''themes'', JArr [])])) []]"
  have limited_v: "\<forall>i<length [60, 120::int]. rate_limited (sleep_max ?v) (responses ?v i) ([60, 120] ! i)"
    by (simp add: world0_def script_def rate_limited_def py_int_120 less_Suc_eq)
  have depth_v: "length [60, 120::int] \<le> retry_depth ?v"
    by (simp add: world0_def)
  have page_v: "page_of (responses ?v (length [60, 120::int])) (JObj [(''themes'', JArr [])])"
    by (simp add: world0_def script_def page_of_def http_error_def)
  note inst_v = rate_limit_retry [OF limited_v depth_v, of "JStr ''https://themes''" "''articles''"
      exporter0 "''articles''"]
  from inst_v page_v
  have "make_request (JStr ''https://themes'') ?v
      = Some (Inr (JObj [(''themes'', JArr [])]),
          advance (JStr ''https://themes'') (retried (JStr ''https://themes'') [60, 120] ?v))"
    by blast
  moreover from inst_v
  have "trace (advance (JStr ''https://themes'') (retried (JStr ''https://themes'') [60, 120] ?v))
      = [Get (JStr ''https://themes''), Sleep 60, Get (JStr ''https://themes''), Sleep 120,
         Get (JStr ''https://themes'')]"
    by (simp add: world0_def)
  ultimately have absent: "\<exists>w'. make_request (JStr ''https://themes'') ?v
        = Some (Inr (JObj [(''themes'', JArr [])]), w')
      \<and> trace w'
          = [Get (JStr ''https://themes''), Sleep 60, Get (JStr ''https://themes''), Sleep 120,
             Get (JStr ''https://themes'')]"
    by blast
  let ?w = "world0 [Response 429 (Some ''120'') None [],
                   Response 200 None (Some (JObj [(''articles'', JArr [JNum 7])])) []]"
  have limited: "\<forall>i<length [120::int]. rate_limited (sleep_max ?w) (responses ?w i) ([120] ! i)"
    by (simp add: world0_def script_def rate_limited_def py_int_120)
  have depth: "length [120::int] \<le> retry_depth ?w"
    by (simp add: world0_def)
  have page: "page_of (responses ?w (length [120::int])) (JObj [(''articles'', JArr [JNum 7])])
      \<and> [(''articles'', JArr [JNum 7])] \<noteq> []
      \<and> items_under ''articles'' [(''articles'', JArr [JNum 7])] = Inr [JNum 7]
      \<and> \<not> truthy (cursor [(''articles'', JArr [JNum 7])])"
    by (simp add: world0_def script_def page_of_def http_error_def items_under_def cursor_def)
  from rate_limit_retry [OF limited depth, of "JStr []" "''articles''" exporter0 "''articles''"] page
  have "\<exists>w'. get_all_paginated exporter0 ''articles'' ''articles'' ?w = Some (Inr [JNum 7], w')
      \<and> trace w' = trace ?w
           @ concat (map (\<lambda>d. [Get (JStr (hc_base_url exporter0 @ ''/'' @ ''articles'')), Sleep d]) [120])
           @ [Get (JStr (hc_base_url exporter0 @ ''/'' @ ''articles'')), Pause]"
    by blast
  then have "\<exists>w'. get_all_paginated exporter0 ''articles'' ''articles'' ?w = Some (Inr [JNum 7], w')
      \<and> trace w'
          = [Get (JStr ''https://userology.zendesk.com/api/v2/help_center/articles''), Sleep 120,
             Get (JStr ''https://userology.zendesk.com/api/v2/help_center/articles''), Pause]"
    by (simp add: world0_def hc_base_url_def exporter0_def)
  with absent show ?thesis
    by blast
qed

text \<open>
  C2 as stated fails in two ways. The retries have a bound: against a server that
  answers 429 without end (retry at once), the 984th call in a row no longer fits the
  depth of calls and \<open>make_request\<close> raises \<^verbatim>\<open>RecursionError\<close> after 984 requests. And not
  every 429 is retried: when a page follows a 429 whose Retry-After is \<open>-1\<close>, \<open>1.5\<close>,
  or a number of seconds beyond what the clock or the platform takes, \<^verbatim>\<open>int\<close> or
  \<^verbatim>\<open>time.sleep\<close> raises, and \<open>get_all_paginated\<close> ends with that after one request.
\<close>

theorem retry_bounded_counterexample:
  "map_option (\<lambda>x. (fst x, length (gets (trace (snd x)))))
       (make_request (JStr ''https://userology.zendesk.com/api/v2/help_center/articles'')
          world_always_429)
     = Some (Inl RecursionError, 984)
   \<and> map (\<lambda>ra. map_option (\<lambda>x. (fst x, gets (trace (snd x))))
             (get_all_paginated exporter0 ''articles'' ''articles''
                (world0 [Response 429 (Some ra) None [],
                         Response 200 None (Some (JObj [(''articles'', JArr [JNum 7])])) []])))
       [''-1'', ''1.5'', ''9223372037'', ''9223372036'']
     = map (\<lambda>e. Some (Inl e, [JStr ''https://userology.zendesk.com/api/v2/help_center/articles'']))
         [ValueError, ValueError, OverflowError, OSError]"
proof
  let ?u = "JStr ''https://userology.zendesk.com/api/v2/help_center/articles''"
  have "trace world_always_429 = []"
    by (simp add: world_always_429_def world0_def)
  then show "map_option (\<lambda>x. (fst x, length (gets (trace (snd x)))))
       (make_request ?u world_always_429) = Some (Inl RecursionError, 984)"
    by (simp add: make_request_always_429)
next
  let ?u = "JStr ''https://userology.zendesk.com/api/v2/help_center/articles''"
  let ?w = "\<lambda>ra. world0 [Response 429 (Some ra) None [],
      Response 200 None (Some (JObj [(''articles'', JArr [JNum 7])])) []]"
  have ints: "py_int ''-1'' = Inr (- 1)" "py_int ''1.5'' = Inl ValueError"
    "py_int ''9223372037'' = Inr 9223372037" "py_int ''9223372036'' = Inr 9223372036"
    by (simp_all add: py_int_def strip_def is_space_def is_digit_def digits_value_def
          max_str_digits_def)
  have raises: "map_option (\<lambda>x. (fst x, gets (trace (snd x))))
        (get_all_paginated exporter0 ''articles'' ''articles'' (?w ra)) = Some (Inl e, [?u])"
    if "(case py_int ra of
           Inl e' \<Rightarrow> Inl e'
         | Inr secs \<Rightarrow>
             (case time_sleep secs (advance ?u (?w ra)) of
                Inl e' \<Rightarrow> Inl e'
              | Inr w2 \<Rightarrow> Inr ())) = Inl e" for ra e
  proof -
    from that have "make_request_at (retry_depth (?w ra)) ?u (?w ra) = (Inl e, advance ?u (?w ra))"
      by (subst make_request_at.simps)
         (auto simp: session_get_def world0_def script_def split: sum.splits)
    then have "make_request ?u (?w ra) = Some (Inl e, advance ?u (?w ra))"
      by (simp add: make_request_def)
    then have "paginate ''articles'' ?u [] (?w ra) = Some (Inl e, advance ?u (?w ra))"
      by (subst paginate.simps) simp
    then show ?thesis
      by (simp add: get_all_paginated_def hc_base_url_def exporter0_def world0_def)
  qed
  have limit: "sleep_max (?w ra) = 9223000000" for ra
    by (simp add: world0_def)
  have "map_option (\<lambda>x. (fst x, gets (trace (snd x))))
        (get_all_paginated exporter0 ''articles'' ''articles'' (?w ''-1'')) = Some (Inl ValueError, [?u])"
    by (rule raises) (simp add: ints time_sleep_def)
  moreover have "map_option (\<lambda>x. (fst x, gets (trace (snd x))))
        (get_all_paginated exporter0 ''articles'' ''articles'' (?w ''1.5'')) = Some (Inl ValueError, [?u])"
    by (rule raises) (simp add: ints)
  moreover have "map_option (\<lambda>x. (fst x, gets (trace (snd x))))
        (get_all_paginated exporter0 ''articles'' ''articles'' (?w ''9223372037''))
      = Some (Inl OverflowError, [?u])"
    by (rule raises) (simp add: ints time_sleep_def)
  moreover have "map_option (\<lambda>x. (fst x, gets (trace (snd x))))
        (get_all_paginated exporter0 ''articles'' ''articles'' (?w ''9223372036''))
      = Some (Inl OSError, [?u])"
    by (rule raises) (simp add: ints time_sleep_def limit)
  ultimately
  show "map (\<lambda>ra. map_option (\<lambda>x. (fst x, gets (trace (snd x))))
             (get_all_paginated exporter0 ''articles'' ''articles''
                (world0 [Response 429 (Some ra) None [],
                         Response 200 None (Some (JObj [(''articles'', JArr [JNum 7])])) []])))
       [''-1'', ''1.5'', ''9223372037'', ''9223372036'']
     = map (\<lambda>e. Some (Inl e, [JStr ''https://userology.zendesk.com/api/v2/help_center/articles'']))
         [ValueError, ValueError, OverflowError, OSError]"
    by simp
qed

text \<open>
  C3, as the code has it. A request counts as failed when the session raises or the
  status is one for which \<^verbatim>\<open>raise_for_status\<close> raises, 400 to 599, other than 429.
  When the request after the pages \<open>ps\<close> fails so, \<open>get_all_paginated\<close> stops there
  and returns the items of the pages before, and no exception leaves it.
\<close>

theorem get_all_paginated_failure:
  assumes pages: "\<forall>i<length ps. page_of (responses w i) (JObj (ps ! i)) \<and> truthy (cursor (ps ! i))"
    and items: "list_all2 (\<lambda>p its. items_under key p = Inr its) ps iss"
    and fails: "failed (responses w (length ps))"
  shows "\<exists>w'. get_all_paginated ex endpoint key w = Some (Inr (concat iss), w')
           \<and> gets (trace w') = gets (trace w)
                @ JStr (hc_base_url ex @ ''/'' @ endpoint) # map cursor ps"
proof -
  define url where "url = JStr (hc_base_url ex @ ''/'' @ endpoint)"
  have url: "truthy url"
    by (simp add: url_def)
  have "paginate key url [] w = Some (Inr ([] @ concat iss),
      advance (last (url # map cursor ps)) (fetched (butlast (url # map cursor ps)) w))"
    by (rule paginate_pages_then_no_data [OF url pages items failed_no_data [OF fails]])
  then have "get_all_paginated ex endpoint key w = Some (Inr (concat iss),
      advance (last (url # map cursor ps)) (fetched (butlast (url # map cursor ps)) w))"
    by (simp add: get_all_paginated_def url_def)
  moreover have "gets (trace (advance (last (url # map cursor ps))
      (fetched (butlast (url # map cursor ps)) w))) = gets (trace w) @ url # map cursor ps"
    using last_butlast_targets [of url ps] by simp
  ultimately show ?thesis
    by (simp add: url_def)
qed

theorem get_all_paginated_failure_witness:
  "\<exists>w'. get_all_paginated exporter0 ''articles'' ''articles''
          (world0 [Response 200 None
                     (Some (JObj [(''articles'', JArr [JNum 1]),
                                  (''next_page'', JStr ''https://next'')])) [],
                   Response 503 None None []])
        = Some (Inr [JNum 1], w')
      \<and> gets (trace w')
          = [JStr ''https://userology.zendesk.com/api/v2/help_center/articles'',
             JStr ''https://next'']"
  using get_all_paginated_failure
    [of "[[(''articles'', JArr [JNum 1]), (''next_page'', JStr ''https://next'')]]"
        "world0 [Response 200 None
                     (Some (JObj [(''articles'', JArr [JNum 1]),
                                  (''next_page'', JStr ''https://next'')])) [],
                   Response 503 None None []]"
        "''articles''" "[[JNum 1]]" exporter0 "''articles''"]
  by (simp add: world0_def script_def page_of_def failed_def http_error_def items_under_def
        cursor_def exporter0_def hc_base_url_def)

text \<open>
  C3 as stated fails for a status outside 200 to 299 for which \<^verbatim>\<open>raise_for_status\<close>
  does not raise: a response with status 300 and a JSON body is taken as a page, its
  item is collected after those of the page before.
\<close>

theorem non_2xx_status_counterexample:
  "\<not> (200 \<le> (300::nat) \<and> (300::nat) < 300) \<and> (300::nat) \<noteq> 429
   \<and> map_option fst (get_all_paginated exporter0 ''articles'' ''articles''
        (world0 [Response 200 None
                   (Some (JObj [(''articles'', JArr [JNum 1]),
                                (''next_page'', JStr ''https://next'')])) [],
                 Response 300 None (Some (JObj [(''articles'', JArr [JNum 2])])) []]))
     = Some (Inr [JNum 1, JNum 2])
   \<and> [JNum 1, JNum 2] \<noteq> [JNum 1]"
proof -
  let ?p1 = "[(''articles'', JArr [JNum 1]), (''next_page'', JStr ''https://next'')]"
  let ?p2 = "[(''articles'', JArr [JNum 2])]"
  let ?w = "world0 [Response 200 None (Some (JObj ?p1)) [], Response 300 None (Some (JObj ?p2)) []]"
  let ?u = "JStr (hc_base_url exporter0 @ ''/'' @ ''articles'')"
  have "paginate ''articles'' ?u [] ?w
      = paginate ''articles'' (cursor ?p1) ([] @ [JNum 1]) (paused (advance ?u ?w))"
    by (rule paginate_page)
       (simp_all add: world0_def script_def page_of_def http_error_def items_under_def)
  also have "\<dots> = paginate ''articles'' (cursor ?p2) (([] @ [JNum 1]) @ [JNum 2])
      (paused (advance (cursor ?p1) (paused (advance ?u ?w))))"
    by (rule paginate_page)
       (simp_all add: world0_def script_def page_of_def http_error_def items_under_def cursor_def)
  also have "\<dots> = Some (Inr [JNum 1, JNum 2],
      paused (advance (cursor ?p1) (paused (advance ?u ?w))))"
    by (simp add: paginate_done cursor_def)
  finally show ?thesis
    by (simp add: get_all_paginated_def)
qed

text \<open>
  C4, as the code has it. For a successful response that is a dictionary whose value
  under the key, when there is one, can be iterated, the loop appends the items of that
  value, which for a list are its elements (nothing without the key), and goes on with
  the page's \<open>next_page\<close> cursor as the request target; an empty dictionary ends the loop
  at once. The loop ends after the page exactly when the cursor is missing, \<^verbatim>\<open>None\<close>
  or otherwise false (an empty string); with any other cursor, a run that returns has
  requested that cursor next.
\<close>

theorem paginate_follows_cursor:
  assumes url: "truthy url"
    and page: "page_of (responses w 0) (JObj p)"
    and its: "items_under key p = Inr its"
  shows "(map_of p key = None \<longrightarrow> its = [])
       \<and> (\<forall>xs. map_of p key = Some (JArr xs) \<longrightarrow> its = xs)
       \<and> (p \<noteq> [] \<longrightarrow>
            paginate key url acc w = paginate key (cursor p) (acc @ its) (paused (advance url w)))
       \<and> (\<not> truthy (cursor p) \<longrightarrow>
            paginate key url acc w
              = Some (Inr (acc @ its), if p = [] then advance url w else paused (advance url w)))
       \<and> (truthy (cursor p) \<longrightarrow>
            (\<forall>r w'. paginate key url acc w = Some (r, w') \<longrightarrow>
               (\<exists>es. trace w' = trace w @ [Get url, Pause, Get (cursor p)] @ es)))"
proof -
  have missing: "its = []" if "map_of p key = None"
    using its that by (simp add: items_under_def)
  have listed: "its = xs" if "map_of p key = Some (JArr xs)" for xs
    using its that by (simp add: items_under_def)
  have step: "paginate key url acc w
      = paginate key (cursor p) (acc @ its) (paused (advance url w))" if "p \<noteq> []"
    by (rule paginate_page [OF url page that its])
  have empty: "paginate key url acc w = Some (Inr (acc @ its), advance url w)" if "p = []"
  proof -
    from page that have "no_data (responses w 0)"
      by (auto simp: page_of_def no_data_def split: http_result.splits)
    from paginate_no_data [OF url this] missing that show ?thesis
      by simp
  qed
  have stop: "paginate key url acc w
      = Some (Inr (acc @ its), if p = [] then advance url w else paused (advance url w))"
    if "\<not> truthy (cursor p)"
    using step empty that by (cases "p = []") (simp_all add: paginate_done)
  have follow: "\<exists>es. trace w' = trace w @ [Get url, Pause, Get (cursor p)] @ es"
    if "truthy (cursor p)" and "paginate key url acc w = Some (r, w')" for r w'
  proof -
    from that(1) have "p \<noteq> []"
      by auto
    from that(2) step [OF this]
    have "paginate key (cursor p) (acc @ its) (paused (advance url w)) = Some (r, w')"
      by simp
    from paginate_trace [OF this that(1)] show ?thesis
      by simp
  qed
  from missing listed step stop follow show ?thesis
    by blast
qed

theorem paginate_follows_cursor_witness:
  "paginate ''articles'' (JStr ''https://first'') [JNum 1]
       (world0 [Response 200 None
          (Some (JObj [(''articles'', JArr [JNum 5, JNum 6]),
                       (''next_page'', JStr ''https://second'')])) []])
     = Some (Inr [JNum 1, JNum 5, JNum 6],
         advance (JStr ''https://second'') (paused (advance (JStr ''https://first'')
           (world0 [Response 200 None
              (Some (JObj [(''articles'', JArr [JNum 5, JNum 6]),
                           (''next_page'', JStr ''https://second'')])) []]))))
   \<and> paginate ''articles'' (JStr ''https://first'') [JNum 1]
       (world0 [Response 200 None (Some (JObj [(''next_page'', JStr ''https://second'')])) []])
     = Some (Inr [JNum 1],
         advance (JStr ''https://second'') (paused (advance (JStr ''https://first'')
           (world0 [Response 200 None (Some (JObj [(''next_page'', JStr ''https://second'')])) []]))))"
proof
  let ?p = "[(''articles'', JArr [JNum 5, JNum 6]), (''next_page'', JStr ''https://second'')]"
  let ?w = "world0 [Response 200 None (Some (JObj ?p)) []]"
  have "paginate ''articles'' (JStr ''https://first'') [JNum 1] ?w
      = paginate ''articles'' (cursor ?p) ([JNum 1] @ [JNum 5, JNum 6])
          (paused (advance (JStr ''https://first'') ?w))"
    using paginate_follows_cursor [of "JStr ''https://first''" ?w ?p "''articles''"
        "[JNum 5, JNum 6]" "[JNum 1]"]
    by (simp add: world0_def script_def page_of_def http_error_def items_under_def)
  also have "\<dots> = Some (Inr [JNum 1, JNum 5, JNum 6], advance (JStr ''https://second'')
      (paused (advance (JStr ''https://first'') ?w)))"
    by (simp add: cursor_def paginate_no_data no_data_def world0_def script_def)
  finally show "paginate ''articles'' (JStr ''https://first'') [JNum 1] ?w
      = Some (Inr [JNum 1, JNum 5, JNum 6], advance (JStr ''https://second'')
          (paused (advance (JStr ''https://first'') ?w)))" .
next
  let ?w = "world0 [Response 200 None (Some (JObj [(''next_page'', JStr ''https://second'')])) []]"
  have "paginate ''articles'' (JStr ''https://first'') [JNum 1] ?w
      = paginate ''articles'' (cursor [(''next_page'', JStr ''https://second'')]) ([JNum 1] @ [])
          (paused (advance (JStr ''https://first'') ?w))"
    using paginate_follows_cursor [of "JStr ''https://first''" ?w
        "[(''next_page'', JStr ''https://second'')]" "''articles''" "[]" "[JNum 1]"]
    by (simp add: world0_def script_def page_of_def http_error_def items_under_def)
  also have "\<dots> = Some (Inr [JNum 1], advance (JStr ''https://second'')
      (paused (advance (JStr ''https://first'') ?w)))"
    by (simp add: cursor_def paginate_no_data no_data_def world0_def script_def)
  finally show "paginate ''articles'' (JStr ''https://first'') [JNum 1] ?w
      = Some (Inr [JNum 1], advance (JStr ''https://second'')
          (paused (advance (JStr ''https://first'') ?w)))" .
qed

text \<open>
  C4 as stated fails in three ways. A page whose cursor is there but empty ends the
  listing: the second page is never requested. A page whose value under the key is
  \<^verbatim>\<open>None\<close> makes \<^verbatim>\<open>extend\<close> raise \<^verbatim>\<open>TypeError\<close>, and a successful response that is a list
  has no \<^verbatim>\<open>get\<close>, an \<^verbatim>\<open>AttributeError\<close>: nothing is appended and no cursor followed.
\<close>

theorem empty_cursor_counterexample:
  "map_option (\<lambda>x. (fst x, gets (trace (snd x))))
       (get_all_paginated exporter0 ''articles'' ''articles''
          (world0 [Response 200 None
                     (Some (JObj [(''articles'', JArr [JNum 7]), (''next_page'', JStr [])])) [],
                   Response 200 None (Some (JObj [(''articles'', JArr [JNum 8])])) []]))
     = Some (Inr [JNum 7], [JStr ''https://userology.zendesk.com/api/v2/help_center/articles''])
   \<and> map_option (\<lambda>x. (fst x, gets (trace (snd x))))
       (get_all_paginated exporter0 ''articles'' ''articles''
          (world0 [Response 200 None
                     (Some (JObj [(''articles'', JNull),
                                  (''next_page'', JStr ''https://second'')])) [],
                   Response 200 None (Some (JObj [(''articles'', JArr [JNum 8])])) []]))
     = Some (Inl TypeError, [JStr ''https://userology.zendesk.com/api/v2/help_center/articles''])
   \<and> map_option (\<lambda>x. (fst x, gets (trace (snd x))))
       (get_all_paginated exporter0 ''articles'' ''articles''
          (world0 [Response 200 None (Some (JArr [JNum 7])) []]))
     = Some (Inl AttributeError,
             [JStr ''https://userology.zendesk.com/api/v2/help_center/articles''])"
  by code_simp

section \<open>Facts about the attachments\<close>

lemma writable_advance [simp]: "writable (advance u w) = writable w"
  by (simp add: advance_def)

lemma download_attachment_eq:
  "download_attachment ex url filename w =
     (if downloadable (responses w 0) \<and> writable w (attachment_path ex filename)
      then (Some (attachment_path ex filename),
            (advance url w)\<lparr>trace := trace w @ [Get url,
               Write (attachment_path ex filename) (Bytes (content (responses w 0)))]\<rparr>)
      else (None, advance url w))"
  by (auto simp: download_attachment_def session_get_def downloadable_def attachment_path_def
        Let_def split: http_result.splits)

lemma download_attachment_world:
  "download_attachment ex url filename w = (fp, w') \<Longrightarrow>
     responses w' = (\<lambda>n. responses w (Suc n)) \<and> writable w' = writable w
     \<and> gets (trace w') = gets (trace w) @ [url]"
  by (auto simp: download_attachment_eq advance_def split: if_splits)

text \<open>The inline loop in closed form: one request per match, a record per saved file.\<close>

lemma inline_loop_eq:
  "inline_loop ex html aid k ms w = (recs, w') \<Longrightarrow>
     recs = map (\<lambda>j. inline_record html aid (k + j) (ms ! j)
                   (attachment_path ex (inline_filename html aid (k + j) (ms ! j))))
              (filter (\<lambda>j. downloadable (responses w j)
                          \<and> writable w (attachment_path ex (inline_filename html aid (k + j) (ms ! j))))
                 [0..<length ms])
     \<and> responses w' = (\<lambda>n. responses w (n + length ms)) \<and> writable w' = writable w
     \<and> gets (trace w') = gets (trace w) @ map (\<lambda>m. JStr (attachment_prefix @ m)) ms"
proof (induction ms arbitrary: k w recs w')
  case Nil
  then show ?case by simp
next
  case (Cons m ms)
  obtain fp w1 where d: "download_attachment ex (JStr (attachment_prefix @ m))
      (inline_filename html aid k m) w = (fp, w1)"
    by (cases "download_attachment ex (JStr (attachment_prefix @ m)) (inline_filename html aid k m) w")
  obtain rest w2 where r: "inline_loop ex html aid (k + 1) ms w1 = (rest, w2)"
    by (cases "inline_loop ex html aid (k + 1) ms w1")
  note w1 = download_attachment_world [OF d]
  note ih = Cons.IH [OF r]
  from Cons.prems d r have w': "w' = w2"
    and recs: "recs = (case fp of None \<Rightarrow> rest
        | Some p \<Rightarrow> inline_record html aid k m p # rest)"
    by (auto split: option.splits)
  have fp: "fp = (if downloadable (responses w 0)
        \<and> writable w (attachment_path ex (inline_filename html aid k m))
      then Some (attachment_path ex (inline_filename html aid k m)) else None)"
    using d by (auto simp: download_attachment_eq split: if_splits)
  have upt: "[0..<length (m # ms)] = 0 # map Suc [0..<length ms]"
    by (simp add: upt_conv_Cons map_Suc_upt del: upt_Suc)
  show ?case
    unfolding upt w' recs fp using ih w1
    by (simp add: filter_map comp_def del: upt_Suc)
qed

subsection \<open>What the two patterns find\<close>

lemma starts_with_append [simp]: "starts_with p (p @ s)"
  by (simp add: starts_with_def)

lemma starts_withD: "starts_with p s \<Longrightarrow> s = p @ drop (length p) s"
  unfolding starts_with_def by (metis append_take_drop_id)

lemma first_some_SomeD: "first_some f xs = Some y \<Longrightarrow> \<exists>x\<in>set xs. f x = Some y"
  by (induction xs) (auto split: option.splits)

lemma first_some_None: "first_some f xs = None \<longleftrightarrow> (\<forall>x\<in>set xs. f x = None)"
  by (induction xs) (auto split: option.splits)

lemma greedy_not_gt_SomeD:
  assumes "greedy_not_gt k s = Some y"
  shows "\<exists>a r. s = a @ r \<and> CHR ''>'' \<notin> set a \<and> k r = Some y"
proof -
  let ?run = "takeWhile (\<lambda>c. c \<noteq> CHR ''>'') s"
  from first_some_SomeD [OF assms [unfolded greedy_not_gt_def]]
  obtain n where "n \<in> set (rev [0..<Suc (length ?run)])" and k: "k (drop n s) = Some y"
    by blast
  then have "n < Suc (length ?run)"
    by (simp del: upt_Suc)
  then have n: "n \<le> length ?run"
    by arith
  have "s = ?run @ dropWhile (\<lambda>c. c \<noteq> CHR ''>'') s"
    by simp
  then have "take n s = take n ?run"
    using n by (metis append_Nil2 diff_is_0_eq take_0 take_append)
  then have "set (take n s) \<subseteq> set ?run"
    by (metis set_take_subset)
  then have "CHR ''>'' \<notin> set (take n s)"
    by (auto dest: set_takeWhileD)
  moreover have "s = take n s @ drop n s"
    by simp
  ultimately show ?thesis
    using k by blast
qed

lemma greedy_not_gt_found:
  assumes "CHR ''>'' \<notin> set a" and "k r \<noteq> None"
  shows "greedy_not_gt k (a @ r) \<noteq> None"
proof -
  have "\<And>x. x \<in> set a \<Longrightarrow> x \<noteq> CHR ''>''"
    using assms(1) by auto
  then have "takeWhile (\<lambda>c. c \<noteq> CHR ''>'') (a @ r) = a @ takeWhile (\<lambda>c. c \<noteq> CHR ''>'') r"
    by (rule takeWhile_append2)
  then have "length a \<le> length (takeWhile (\<lambda>c. c \<noteq> CHR ''>'') (a @ r))"
    by simp
  then have "length a < Suc (length (takeWhile (\<lambda>c. c \<noteq> CHR ''>'') (a @ r)))"
    by arith
  then have "length a \<in> set (rev [0..<Suc (length (takeWhile (\<lambda>c. c \<noteq> CHR ''>'') (a @ r)))])"
    by (simp del: upt_Suc)
  moreover have "k (drop (length a) (a @ r)) \<noteq> None"
    using assms(2) by simp
  ultimately have "\<not> (\<forall>n\<in>set (rev [0..<Suc (length (takeWhile (\<lambda>c. c \<noteq> CHR ''>'') (a @ r)))]).
      (\<lambda>n. k (drop n (a @ r))) n = None)"
    by (intro notI) (drule bspec, assumption, simp)
  then show ?thesis
    unfolding greedy_not_gt_def first_some_None .
qed

lemma match_alt_SomeD:
  assumes "match_alt s = Some g"
  shows "\<exists>rest. s = ''alt='' @ [dq] @ g @ [dq] @ rest \<and> dq \<notin> set g"
proof -
  let ?r = "drop 5 s"
  from assms have sw: "starts_with (''alt='' @ [dq]) s"
    and g: "g = takeWhile (\<lambda>c. c \<noteq> dq) ?r" and len: "length g < length ?r"
    by (auto simp: match_alt_def Let_def split: if_splits)
  have "length (''alt='' @ [dq]) = 5"
    by simp
  with starts_withD [OF sw] have s: "s = ''alt='' @ [dq] @ ?r"
    by (simp only: append_assoc)
  have r: "?r = g @ dropWhile (\<lambda>c. c \<noteq> dq) ?r"
    unfolding g by simp
  with len have ne: "dropWhile (\<lambda>c. c \<noteq> dq) ?r \<noteq> []"
    by (metis append_Nil2 less_irrefl)
  then have "hd (dropWhile (\<lambda>c. c \<noteq> dq) ?r) = dq"
    using hd_dropWhile [of "\<lambda>c. c \<noteq> dq" ?r] by simp
  with ne have "dropWhile (\<lambda>c. c \<noteq> dq) ?r = dq # tl (dropWhile (\<lambda>c. c \<noteq> dq) ?r)"
    by (metis list.collapse)
  with r have "?r = g @ [dq] @ tl (dropWhile (\<lambda>c. c \<noteq> dq) ?r)"
    by simp
  with s have "s = ''alt='' @ [dq] @ g @ [dq] @ tl (dropWhile (\<lambda>c. c \<noteq> dq) ?r)"
    by metis
  moreover have "dq \<notin> set g"
    unfolding g by (auto dest: set_takeWhileD)
  ultimately show ?thesis
    by blast
qed

lemma match_alt_found:
  assumes "dq \<notin> set g"
  shows "match_alt (''alt='' @ [dq] @ g @ [dq] @ rest) = Some g"
proof -
  have "\<And>x. x \<in> set g \<Longrightarrow> x \<noteq> dq"
    using assms by auto
  then have "takeWhile (\<lambda>c. c \<noteq> dq) (g @ dq # rest) = g @ takeWhile (\<lambda>c. c \<noteq> dq) (dq # rest)"
    by (rule takeWhile_append2)
  then have "takeWhile (\<lambda>c. c \<noteq> dq) (g @ dq # rest) = g"
    by simp
  then show ?thesis
    by (simp add: match_alt_def starts_with_def)
qed

lemma match_src_SomeD:
  assumes "match_src url s = Some g"
  shows "\<exists>b rest. s = ''src='' @ [dq] @ url @ [dq] @ b @ ''alt='' @ [dq] @ g @ [dq] @ rest
           \<and> CHR ''>'' \<notin> set b \<and> dq \<notin> set g"
proof -
  let ?lit = "''src='' @ [dq] @ url @ [dq]"
  from assms have sw: "starts_with ?lit s"
    and k: "greedy_not_gt match_alt (drop (length ?lit) s) = Some g"
    by (auto simp: match_src_def split: if_splits)
  from greedy_not_gt_SomeD [OF k] obtain b r where br: "drop (length ?lit) s = b @ r"
    and b: "CHR ''>'' \<notin> set b" and r: "match_alt r = Some g"
    by blast
  from match_alt_SomeD [OF r] obtain rest where rest: "r = ''alt='' @ [dq] @ g @ [dq] @ rest"
    and g: "dq \<notin> set g"
    by blast
  from starts_withD [OF sw] br rest have "s = ?lit @ b @ ''alt='' @ [dq] @ g @ [dq] @ rest"
    by metis
  with b g show ?thesis
    by (metis append.assoc)
qed

lemma match_src_found:
  assumes "CHR ''>'' \<notin> set b" and "dq \<notin> set g"
  shows "match_src url (''src='' @ [dq] @ url @ [dq] @ b @ ''alt='' @ [dq] @ g @ [dq] @ rest) \<noteq> None"
proof -
  have "greedy_not_gt match_alt (b @ ''alt='' @ [dq] @ g @ [dq] @ rest) \<noteq> None"
    using greedy_not_gt_found [of b match_alt "''alt='' @ [dq] @ g @ [dq] @ rest"]
      assms(1) match_alt_found [OF assms(2), of rest]
    by simp
  moreover have "starts_with (''src='' @ [dq] @ url @ [dq])
      (''src='' @ [dq] @ url @ [dq] @ b @ ''alt='' @ [dq] @ g @ [dq] @ rest)"
    by (simp add: starts_with_def)
  ultimately show ?thesis
    by (simp add: match_src_def)
qed

lemma match_img_SomeD:
  assumes "match_img url s = Some g"
  shows "\<exists>a b rest. s = ''<img'' @ a @ ''src='' @ [dq] @ url @ [dq] @ b
             @ ''alt='' @ [dq] @ g @ [dq] @ rest
           \<and> CHR ''>'' \<notin> set a \<and> CHR ''>'' \<notin> set b \<and> dq \<notin> set g"
proof -
  from assms have sw: "starts_with ''<img'' s"
    and k: "greedy_not_gt (match_src url) (drop 4 s) = Some g"
    by (auto simp: match_img_def split: if_splits)
  from greedy_not_gt_SomeD [OF k] obtain a r where ar: "drop 4 s = a @ r"
    and a: "CHR ''>'' \<notin> set a" and r: "match_src url r = Some g"
    by blast
  from match_src_SomeD [OF r] obtain b rest
    where rest: "r = ''src='' @ [dq] @ url @ [dq] @ b @ ''alt='' @ [dq] @ g @ [dq] @ rest"
      and b: "CHR ''>'' \<notin> set b" and g: "dq \<notin> set g"
    by blast
  have "length ''<img'' = 4"
    by simp
  with starts_withD [OF sw] ar have "s = ''<img'' @ a @ r"
    by (simp only:)
  with rest a b g show ?thesis
    by blast
qed

lemma match_img_found:
  assumes "CHR ''>'' \<notin> set a" and "CHR ''>'' \<notin> set b" and "dq \<notin> set g"
  shows "match_img url (''<img'' @ a @ ''src='' @ [dq] @ url @ [dq] @ b
           @ ''alt='' @ [dq] @ g @ [dq] @ rest) \<noteq> None"
proof -
  have "greedy_not_gt (match_src url)
      (a @ ''src='' @ [dq] @ url @ [dq] @ b @ ''alt='' @ [dq] @ g @ [dq] @ rest) \<noteq> None"
    using greedy_not_gt_found [of a "match_src url"
        "''src='' @ [dq] @ url @ [dq] @ b @ ''alt='' @ [dq] @ g @ [dq] @ rest"]
      assms(1) match_src_found [OF assms(2,3), of url rest]
    by simp
  then show ?thesis
    by (simp add: match_img_def starts_with_def)
qed

lemma search_img_SomeD: "search_img url html = Some alt \<Longrightarrow> img_tag url alt html"
proof (induction html)
  case Nil
  from match_img_SomeD [OF Nil [simplified]] show ?case
    by simp
next
  case (Cons c s)
  show ?case
  proof (cases "match_img url (c # s)")
    case None
    with Cons have "img_tag url alt s"
      by simp
    then show ?thesis
      unfolding img_tag_def by (metis append_Cons)
  next
    case (Some g)
    with Cons.prems have "match_img url (c # s) = Some alt"
      by simp
    from match_img_SomeD [OF this] show ?thesis
      unfolding img_tag_def by (metis append_Nil)
  qed
qed

lemma search_img_found: "img_tag url alt html \<Longrightarrow> search_img url html \<noteq> None"
proof -
  have "search_img url (pre @ s) \<noteq> None" if "match_img url s \<noteq> None" for pre s
    using that
  proof (induction pre)
    case Nil
    then show ?case by (cases s) (auto split: option.splits)
  next
    case (Cons c pre)
    then show ?case by (auto split: option.splits)
  qed
  then show "img_tag url alt html \<Longrightarrow> search_img url html \<noteq> None"
    unfolding img_tag_def using match_img_found by blast
qed

lemma inline_name_cases:
  "(\<exists>alt. img_tag (attachment_prefix @ m) alt html \<and> inline_name html m = alt)
   \<or> ((\<forall>alt. \<not> img_tag (attachment_prefix @ m) alt html)
       \<and> inline_name html m = ''attachment_'' @ m)"
proof (cases "search_img (attachment_prefix @ m) html")
  case None
  with search_img_found have "\<forall>alt. \<not> img_tag (attachment_prefix @ m) alt html"
    by blast
  with None show ?thesis
    by (simp add: inline_name_def)
next
  case (Some alt)
  with search_img_SomeD show ?thesis
    by (auto simp: inline_name_def)
qed

subsection \<open>The matches of the attachment pattern\<close>

lemma takeWhile_Nil_hd: "takeWhile P xs \<noteq> [] \<longleftrightarrow> (case xs of [] \<Rightarrow> False | x # r \<Rightarrow> P x)"
  by (cases xs) simp_all

lemma match_at_0:
  "match_at html 0 \<longleftrightarrow>
     starts_with attachment_prefix html
     \<and> takeWhile is_digit (drop (length attachment_prefix) html) \<noteq> []"
  by (simp add: match_at_def takeWhile_Nil_hd)

lemma match_at_Suc: "match_at (c # s) (Suc k) = match_at s k"
  by (simp add: match_at_def)

subsection \<open>Decimal numbers\<close>

lemma digit_char_digit: "d < 10 \<Longrightarrow> is_digit (digit_char d) \<and> of_char (digit_char d) = 48 + d"
proof -
  assume "d < 10"
  then have "d \<in> {0, 1, 2, 3, 4, 5, 6, 7, 8, 9}"
    by auto
  then show ?thesis
    by (auto simp: digit_char_def is_digit_def)
qed

lemma str_nat_digits: "c \<in> set (str_nat n) \<Longrightarrow> is_digit c"
proof (induction n arbitrary: c rule: str_nat.induct)
  case (1 n)
  show ?case
  proof (cases "n < 10")
    case True
    with "1.prems" digit_char_digit [of n] show ?thesis
      by (simp add: str_nat.simps [of n])
  next
    case False
    with "1.prems" "1.IH" digit_char_digit [of "n mod 10"] show ?thesis
      by (auto simp: str_nat.simps [of n])
  qed
qed

lemma filter_digits_str_nat: "filter is_digit (str_nat n) = str_nat n"
  by (simp add: filter_id_conv str_nat_digits)

lemma digits_value_str_nat: "digits_value (str_nat n) = n"
proof (induction n rule: str_nat.induct)
  case (1 n)
  show ?case
  proof (cases "n < 10")
    case True
    with digit_char_digit [of n] show ?thesis
      by (simp add: str_nat.simps [of n] digits_value_def)
  next
    case False
    have "digits_value (str_nat n)
        = 10 * digits_value (str_nat (n div 10)) + (of_char (digit_char (n mod 10)) - 48)"
      using False filter_digits_str_nat [of "n div 10"] digit_char_digit [of "n mod 10"]
      by (simp add: str_nat.simps [of n] digits_value_def)
    also have "\<dots> = 10 * (n div 10) + n mod 10"
      using "1.IH" [OF False] digit_char_digit [of "n mod 10"] by simp
    finally show ?thesis
      by simp
  qed
qed

lemma str_nat_inj: "str_nat m = str_nat n \<Longrightarrow> m = n"
  by (metis digits_value_str_nat)

lemma is_digit_not_special: "is_digit c \<Longrightarrow> c \<noteq> CHR ''_'' \<and> c \<noteq> CHR ''-''"
  by (auto simp: is_digit_def)

lemma str_nat_no_underscore: "CHR ''_'' \<notin> set (str_nat n)"
  using str_nat_digits is_digit_not_special by blast

lemma str_int_no_underscore: "CHR ''_'' \<notin> set (str_int i)"
  by (simp add: str_int_def str_nat_no_underscore)

lemma str_int_inj: "str_int i = str_int j \<Longrightarrow> i = j"
proof -
  assume eq: "str_int i = str_int j"
  have pos: "hd (str_nat n) \<noteq> CHR ''-''" for n
  proof -
    have "str_nat n \<noteq> []"
      by (subst str_nat.simps) simp
    then have "hd (str_nat n) \<in> set (str_nat n)"
      by simp
    with str_nat_digits is_digit_not_special show ?thesis
      by blast
  qed
  show "i = j"
  proof (cases "i < 0")
    case True
    show ?thesis
    proof (cases "j < 0")
      case jn: True
      with True eq have "nat (- i) = nat (- j)"
        by (simp add: str_int_def str_nat_inj)
      with True jn show ?thesis by simp
    next
      case False
      with True eq pos [of "nat j"] show ?thesis
        by (auto simp: str_int_def dest: arg_cong [where f = hd])
    qed
  next
    case False
    show ?thesis
    proof (cases "j < 0")
      case True
      with False eq pos [of "nat i"] show ?thesis
        by (auto simp: str_int_def dest: arg_cong [where f = hd])
    next
      case jp: False
      with False eq have "nat i = nat j"
        by (simp add: str_int_def str_nat_inj)
      with False jp show ?thesis by simp
    qed
  qed
qed

text \<open>A text is cut at its first underscore in one way only.\<close>

lemma cut_at_underscore:
  assumes "CHR ''_'' \<notin> set a" and "CHR ''_'' \<notin> set b"
    and "a @ CHR ''_'' # r = b @ CHR ''_'' # s"
  shows "a = b \<and> r = s"
proof -
  have "takeWhile (\<lambda>c. c \<noteq> CHR ''_'') (x @ CHR ''_'' # y) = x" if "CHR ''_'' \<notin> set x" for x y
  proof -
    have "\<And>c. c \<in> set x \<Longrightarrow> c \<noteq> CHR ''_''"
      using that by auto
    then have "takeWhile (\<lambda>c. c \<noteq> CHR ''_'') (x @ CHR ''_'' # y)
        = x @ takeWhile (\<lambda>c. c \<noteq> CHR ''_'') (CHR ''_'' # y)"
      by (rule takeWhile_append2)
    then show ?thesis by simp
  qed
  from this [OF assms(1), of r] this [OF assms(2), of s] assms(3) have "a = b"
    by simp
  with assms(3) show ?thesis
    by simp
qed

section \<open>Facts about the export of an article\<close>

lemma map_of_dict_set: "map_of (dict_set kvs k v) k' = (if k' = k then Some v else map_of kvs k')"
  by (induction kvs) auto

lemma dict_set_twice [simp]: "dict_set (dict_set kvs k v) k v' = dict_set kvs k v'"
  by (induction kvs) auto

lemma dict_set_others:
  "filter (\<lambda>kv. fst kv \<noteq> k) (dict_set kvs k v) = filter (\<lambda>kv. fst kv \<noteq> k) kvs"
  by (induction kvs) auto

text \<open>What a successful export of an article consists of.\<close>

lemma export_article_InrD:
  assumes "export_article ex a w = (Inr a', w')"
  shows "\<exists>kvs recs1 w1 recs2.
           a = JObj kvs
         \<and> structured_attachments ex (JObj (dict_set kvs ''downloaded_attachments'' (JArr []))) w
             = (Inr recs1, w1)
         \<and> inline_attachments ex (JObj (dict_set kvs ''downloaded_attachments'' (JArr []))) w1
             = (Inr recs2, w')
         \<and> a' = JObj (dict_set kvs ''downloaded_attachments'' (JArr (recs1 @ recs2)))"
proof (cases a)
  case (JObj kvs)
  with assms show ?thesis
    by (auto simp: export_article_def split: prod.splits sum.splits)
qed (use assms in \<open>simp_all add: export_article_def\<close>)

lemma py_get_shadow:
  "k \<noteq> ''downloaded_attachments'' \<Longrightarrow>
     py_get (JObj (dict_set kvs ''downloaded_attachments'' v)) k d = py_get (JObj kvs) k d"
  by (simp add: map_of_dict_set)

lemma py_getitem_shadow:
  "k \<noteq> ''downloaded_attachments'' \<Longrightarrow>
     py_getitem (JObj (dict_set kvs ''downloaded_attachments'' v)) k = py_getitem (JObj kvs) k"
  by (simp add: map_of_dict_set)

lemma structured_loop_names:
  "structured_loop ex a atts w = (Inr recs, w') \<Longrightarrow> r \<in> set recs \<Longrightarrow>
     \<exists>att aid fn. att \<in> set atts \<and> py_getitem a ''id'' = Inr aid
       \<and> py_getitem att ''file_name'' = Inr fn
       \<and> field ''filename'' r = Some (JStr (py_str aid @ ''_'' @ py_str fn))"
proof (induction atts arbitrary: w recs)
  case Nil
  then show ?case by simp
next
  case (Cons att atts)
  from Cons.prems(1) obtain aid fn cu w1 rest
    where aid: "py_getitem a ''id'' = Inr aid"
      and fn: "py_getitem att ''file_name'' = Inr fn"
      and rest: "structured_loop ex a atts w1 = (Inr rest, w')"
      and recs: "recs = rest
          \<or> (\<exists>p. recs = structured_record cu p (py_str aid @ ''_'' @ py_str fn) # rest)"
    by (fastforce split: sum.splits prod.splits option.splits)
  show ?case
  proof (cases "r \<in> set rest")
    case True
    from Cons.IH [OF rest True] show ?thesis
      by auto
  next
    case False
    with Cons.prems(2) recs obtain p
      where "r = structured_record cu p (py_str aid @ ''_'' @ py_str fn)"
      by auto
    with aid fn show ?thesis
      by (auto simp: structured_record_def field_def)
  qed
qed

lemma structured_attachments_names:
  assumes "structured_attachments ex a w = (Inr recs, w')" and "r \<in> set recs"
  shows "\<exists>v atts att aid fn. py_get a ''attachments'' JNull = Inr v \<and> py_iter v = Inr atts
       \<and> att \<in> set atts \<and> py_getitem a ''id'' = Inr aid
       \<and> py_getitem att ''file_name'' = Inr fn
       \<and> field ''filename'' r = Some (JStr (py_str aid @ ''_'' @ py_str fn))"
proof -
  from assms obtain v atts where v: "py_get a ''attachments'' JNull = Inr v"
    and atts: "py_iter v = Inr atts"
    and loop: "structured_loop ex a atts w = (Inr recs, w')"
    by (auto simp: structured_attachments_def split: sum.splits if_splits)
  from structured_loop_names [OF loop assms(2)] v atts show ?thesis
    by blast
qed

text \<open>The inline records of an article: their file names, which differ from one another.\<close>

lemma inline_filename_inj:
  "inline_filename html aid i m = inline_filename html aid j n \<Longrightarrow> i = j"
proof -
  assume "inline_filename html aid i m = inline_filename html aid j n"
  then have "str_nat (i + 1) @ CHR ''_'' # inline_name html m
      = str_nat (j + 1) @ CHR ''_'' # inline_name html n"
    by (simp add: inline_filename_def)
  from cut_at_underscore [OF str_nat_no_underscore str_nat_no_underscore this]
  have "str_nat (i + 1) = str_nat (j + 1)"
    by simp
  from str_nat_inj [OF this] show "i = j"
    by simp
qed

lemma inline_attachments_names:
  assumes "inline_attachments ex a w = (Inr recs, w')"
  shows "distinct (map (field ''filename'') recs)
       \<and> (\<forall>r\<in>set recs. \<exists>aid j name. py_getitem a ''id'' = Inr aid
             \<and> field ''filename'' r
                 = Some (JStr (py_str aid @ ''_'' @ str_nat (j + 1) @ ''_'' @ name)))"
proof (cases "recs = []")
  case True
  then show ?thesis by simp
next
  case False
  with assms obtain body aid where aid: "py_getitem a ''id'' = Inr aid"
    and ex: "extract_attachments_from_html ex body aid w = (Inr recs, w')"
    by (auto simp: inline_attachments_def split: sum.splits if_splits)
  then obtain html where body: "body = JStr html"
    by (cases body) (auto simp: extract_attachments_from_html_def)
  from ex obtain rs where loop: "inline_loop ex html aid 0 (findall_ids html) w = (rs, w')"
    and rs: "recs = rs"
    by (auto simp: body extract_attachments_from_html_def split: prod.splits)
  define saved where "saved = filter (\<lambda>j. downloadable (responses w j)
      \<and> writable w (attachment_path ex (inline_filename html aid j (findall_ids html ! j))))
      [0..<length (findall_ids html)]"
  from inline_loop_eq [OF loop] rs
  have recs: "recs = map (\<lambda>j. inline_record html aid j (findall_ids html ! j)
      (attachment_path ex (inline_filename html aid j (findall_ids html ! j)))) saved"
    by (simp add: saved_def)
  have names: "map (field ''filename'') recs
      = map (\<lambda>j. Some (JStr (inline_filename html aid j (findall_ids html ! j)))) saved"
    by (simp add: recs field_def inline_record_def comp_def)
  have "distinct saved"
    by (simp add: saved_def)
  moreover have "inj_on (\<lambda>j. Some (JStr (inline_filename html aid j (findall_ids html ! j))))
      (set saved)"
    by (rule inj_onI) (auto dest: inline_filename_inj)
  ultimately have "distinct (map (field ''filename'') recs)"
    unfolding names by (simp add: distinct_map)
  moreover have "\<exists>aid j name. py_getitem a ''id'' = Inr aid
      \<and> field ''filename'' r = Some (JStr (py_str aid @ ''_'' @ str_nat (j + 1) @ ''_'' @ name))"
    if "r \<in> set recs" for r
  proof -
    from that recs obtain j where "r = inline_record html aid j (findall_ids html ! j)
        (attachment_path ex (inline_filename html aid j (findall_ids html ! j)))"
      by auto
    then have "field ''filename'' r = Some (JStr (py_str aid @ ''_'' @ str_nat (j + 1) @ ''_''
        @ inline_name html (findall_ids html ! j)))"
      by (simp add: field_def inline_record_def inline_filename_def)
    with aid show ?thesis
      by blast
  qed
  ultimately show ?thesis
    by blast
qed

lemma structured_loop_shadow:
  "structured_loop ex (JObj (dict_set kvs ''downloaded_attachments'' v)) atts w
     = structured_loop ex (JObj kvs) atts w"
  by (induction atts arbitrary: w)
     (simp_all add: map_of_dict_set cong: sum.case_cong prod.case_cong)

lemma structured_attachments_shadow:
  "structured_attachments ex (JObj (dict_set kvs ''downloaded_attachments'' v)) w
     = structured_attachments ex (JObj kvs) w"
  by (simp add: structured_attachments_def structured_loop_shadow map_of_dict_set
        cong: sum.case_cong)

lemma inline_attachments_shadow:
  "inline_attachments ex (JObj (dict_set kvs ''downloaded_attachments'' v)) w
     = inline_attachments ex (JObj kvs) w"
  by (simp add: inline_attachments_def map_of_dict_set cong: sum.case_cong)

text \<open>A successful export of an article, in terms of the article as it was fetched.\<close>

lemma export_article_records:
  assumes "export_article ex a w = (Inr a', w')"
  shows "\<exists>kvs recs1 w1 recs2.
           a = JObj kvs
         \<and> structured_attachments ex a w = (Inr recs1, w1)
         \<and> inline_attachments ex a w1 = (Inr recs2, w')
         \<and> a' = JObj (dict_set kvs ''downloaded_attachments'' (JArr (recs1 @ recs2)))
         \<and> downloaded a' = recs1 @ recs2"
proof -
  from export_article_InrD [OF assms] obtain kvs recs1 w1 recs2 where a: "a = JObj kvs"
    and s: "structured_attachments ex (JObj (dict_set kvs ''downloaded_attachments'' (JArr []))) w
        = (Inr recs1, w1)"
    and i: "inline_attachments ex (JObj (dict_set kvs ''downloaded_attachments'' (JArr []))) w1
        = (Inr recs2, w')"
    and a': "a' = JObj (dict_set kvs ''downloaded_attachments'' (JArr (recs1 @ recs2)))"
    by blast
  have "downloaded a' = recs1 @ recs2"
    by (simp add: a' downloaded_def field_def map_of_dict_set)
  with a s i a' show ?thesis
    by (simp add: structured_attachments_shadow inline_attachments_shadow)
qed

lemma py_str_JNum [simp]: "py_str (JNum m) = str_int m"
  by simp

lemma record_filenames_prefix:
  assumes "export_article ex a w = (Inr a', w')" and "py_getitem a ''id'' = Inr (JNum m)"
    and "f \<in> set (record_filenames a')"
  shows "\<exists>rest. f = Some (JStr (str_int m @ CHR ''_'' # rest))"
proof -
  from export_article_records [OF assms(1)] obtain recs1 w1 recs2
    where s: "structured_attachments ex a w = (Inr recs1, w1)"
      and i: "inline_attachments ex a w1 = (Inr recs2, w')"
      and d: "downloaded a' = recs1 @ recs2"
    by blast
  from assms(3) d obtain r where r: "r \<in> set recs1 \<or> r \<in> set recs2"
    and f: "f = field ''filename'' r"
    by (auto simp: record_filenames_def)
  from r show ?thesis
  proof
    assume "r \<in> set recs1"
    from structured_attachments_names [OF s this] assms(2) f show ?thesis
      by auto
  next
    assume "r \<in> set recs2"
    with inline_attachments_names [OF i] assms(2) f show ?thesis
      by fastforce
  qed
qed

section \<open>Runs that complete\<close>

lemma quiet_from_mono: "quiet_from M w \<Longrightarrow> M \<le> N \<Longrightarrow> quiet_from N w"
  by (simp add: quiet_from_def)

lemma later_refl [simp]: "later 0 w w"
  by (simp add: later_def)

lemma later_trans: "later j w w1 \<Longrightarrow> later k w1 w2 \<Longrightarrow> later (j + k) w w2"
  by (auto simp: later_def fun_eq_iff ac_simps)

lemma later_advance [simp]: "later (Suc 0) w (advance u w)"
  by (simp add: later_def fun_eq_iff)

lemma later_slept: "later k w w' \<Longrightarrow> later k w (slept d w')"
  by (simp add: later_def)

lemma later_paused: "later k w w' \<Longrightarrow> later k w (paused w')"
  by (simp add: later_def)

lemma benign_later: "benign w \<Longrightarrow> later k w w' \<Longrightarrow> benign w'"
  by (simp add: benign_def later_def)

lemma retries_fit_later:
  assumes "retries_fit w" and "later k w w'"
  shows "retries_fit w'"
  unfolding retries_fit_def
proof
  fix n
  from assms(1) obtain i where "i \<le> retry_depth w" and "\<not> is_429 (responses w (n + k + i))"
    unfolding retries_fit_def by blast
  with assms(2) show "\<exists>i\<le>retry_depth w'. \<not> is_429 (responses w' (n + i))"
    by (auto simp: later_def ac_simps intro!: exI [of _ i])
qed

lemma quiet_from_later: "quiet_from N w \<Longrightarrow> later k w w' \<Longrightarrow> quiet_from (N - k) w'"
  by (simp add: quiet_from_def later_def)

lemma files_writable_later: "files_writable ex w \<Longrightarrow> later k w w' \<Longrightarrow> files_writable ex w'"
  by (simp add: files_writable_def later_def)

lemma benign_429:
  assumes "benign w" and "is_429 (responses w 0)"
  shows "\<exists>secs. rate_limited (sleep_max w) (responses w 0) secs"
proof -
  from assms(1) have "benign_response (sleep_max w) (responses w 0)"
    by (simp add: benign_def)
  with assms(2) show ?thesis
    by (auto simp: benign_response_def rate_limited_def is_429_def
          split: http_result.splits sum.splits)
qed

text \<open>Every request leaves the machine as it was and the server some results further.\<close>

lemma make_request_at_later: "\<exists>k. later k w (snd (make_request_at d url w))"
proof (induction d arbitrary: w)
  case 0
  show ?case
  proof (cases rule: make_request_at_kinds [where w = w and url = url])
    case (limited secs)
    from make_request_at_no_depth [OF this, of url] later_slept [OF later_advance, of w secs url]
    show ?thesis
      by auto
  next
    case (raised e)
    with later_advance [of w url] show ?thesis
      by (metis snd_conv)
  next
    case (returned d)
    with later_advance [of w url] show ?thesis
      by (metis snd_conv)
  qed
next
  case (Suc d)
  show ?case
  proof (cases rule: make_request_at_kinds [where w = w and url = url])
    case (limited secs)
    from Suc [of "slept secs (advance url w)"] obtain k
      where "later k (slept secs (advance url w))
               (snd (make_request_at d url (slept secs (advance url w))))" ..
    from later_trans [OF later_slept [OF later_advance] this]
    show ?thesis
      by (auto simp: make_request_at_rate_limited [OF limited])
  next
    case (raised e)
    with later_advance [of w url] show ?thesis
      by (metis snd_conv)
  next
    case (returned d)
    with later_advance [of w url] show ?thesis
      by (metis snd_conv)
  qed
qed

text \<open>
  Against a benign server that falls quiet, a request under which the coming 429
  answers fit returns, without an exception.
\<close>

lemma make_request_at_calm:
  assumes "benign w" and "\<exists>i\<le>d. \<not> is_429 (responses w i)" and "quiet_from N w"
  shows "\<exists>data w' k. make_request_at d url w = (Inr data, w') \<and> later k w w' \<and> 0 < k
           \<and> (truthy data \<longrightarrow> listing_page data \<and> k \<le> N)"
  using assms
proof (induction d arbitrary: w N)
  case 0
  then have first: "\<not> is_429 (responses w 0)"
    by simp
  from 0 have b: "benign_response (sleep_max w) (responses w 0)"
    by (simp add: benign_def)
  show ?case
  proof (cases "\<exists>data. page_of (responses w 0) data \<and> truthy data")
    case True
    then obtain data where page: "page_of (responses w 0) data" and t: "truthy data"
      by blast
    from page 0(3) have "0 < N"
      by (cases N) (auto simp: quiet_from_def page_of_def)
    moreover from page t b have "listing_page data"
      by (auto simp: benign_response_def page_of_def split: http_result.splits if_splits)
    ultimately show ?thesis
      using make_request_at_page [OF page, of 0 url] later_advance [of w url]
      by (intro exI [of _ data] exI [of _ "advance url w"] exI [of _ "Suc 0"]) simp
  next
    case False
    with first have "no_data (responses w 0)"
      by (auto simp: no_data_def page_of_def is_429_def split: http_result.splits option.splits)
    from make_request_at_no_data [OF this, of 0 url] later_advance [of w url] show ?thesis
      by (auto intro!: exI [of _ "Suc 0"])
  qed
next
  case (Suc d)
  from Suc.prems have b: "benign_response (sleep_max w) (responses w 0)"
    by (simp add: benign_def)
  show ?case
  proof (cases "is_429 (responses w 0)")
    case True
    from benign_429 [OF Suc.prems(1) True] obtain secs
      where rl: "rate_limited (sleep_max w) (responses w 0) secs" ..
    let ?w = "slept secs (advance url w)"
    have l: "later (Suc 0) w ?w"
      by (rule later_slept [OF later_advance])
    from Suc.prems(2) True have "\<exists>i\<le>d. \<not> is_429 (responses ?w i)"
      by (metis Suc_le_mono not0_implies_Suc responses_advance responses_slept)
    moreover from True Suc.prems(3) have pos: "0 < N"
      by (cases N) (auto simp: quiet_from_def is_429_def)
    moreover have "benign ?w" "quiet_from (N - Suc 0) ?w"
      using benign_later [OF Suc.prems(1) l] quiet_from_later [OF Suc.prems(3) l] by simp_all
    ultimately obtain data w' k where "make_request_at d url ?w = (Inr data, w')"
      and "later k ?w w'" and "truthy data \<longrightarrow> listing_page data \<and> k \<le> N - Suc 0"
      using Suc.IH [of ?w "N - Suc 0"] by blast
    with pos later_trans [OF l, of k w'] make_request_at_rate_limited [OF rl, of d url]
    show ?thesis
      by (intro exI [of _ data] exI [of _ w'] exI [of _ "Suc 0 + k"]) auto
  next
    case first: False
    show ?thesis
    proof (cases "\<exists>data. page_of (responses w 0) data \<and> truthy data")
      case True
      then obtain data where page: "page_of (responses w 0) data" and t: "truthy data"
        by blast
      from page Suc.prems(3) have "0 < N"
        by (cases N) (auto simp: quiet_from_def page_of_def)
      moreover from page t b have "listing_page data"
        by (auto simp: benign_response_def page_of_def split: http_result.splits if_splits)
      ultimately show ?thesis
        using make_request_at_page [OF page, of "Suc d" url] later_advance [of w url]
        by (intro exI [of _ data] exI [of _ "advance url w"] exI [of _ "Suc 0"]) simp
    next
      case False
      with first have "no_data (responses w 0)"
        by (auto simp: no_data_def page_of_def is_429_def split: http_result.splits option.splits)
      from make_request_at_no_data [OF this, of "Suc d" url] later_advance [of w url]
      show ?thesis
        by (auto intro!: exI [of _ "Suc 0"])
    qed
  qed
qed

lemma listing_pageD:
  assumes "listing_page d" and "key = ''categories'' \<or> key = ''sections'' \<or> key = ''articles''"
  shows "\<exists>p its. d = JObj p \<and> items_under key p = Inr its
           \<and> (key = ''articles'' \<longrightarrow> list_all well_formed_article its)"
proof -
  from assms(1) obtain p where p: "d = JObj p"
    by (cases d) (simp_all add: listing_page_def)
  with assms show ?thesis
    by (auto simp: listing_page_def split: sum.splits)
qed

text \<open>So does every listing, and the articles it returns are well-formed.\<close>

lemma paginate_calm:
  assumes "benign w" and "retries_fit w" and "quiet_from N w"
    and "key = ''categories'' \<or> key = ''sections'' \<or> key = ''articles''"
    and "key = ''articles'' \<longrightarrow> list_all well_formed_article acc"
  shows "\<exists>items w' k. paginate key url acc w = Some (Inr items, w') \<and> later k w w'
           \<and> (key = ''articles'' \<longrightarrow> list_all well_formed_article items)"
  using assms
proof (induction N arbitrary: url acc w rule: less_induct)
  case (less N)
  show ?case
  proof (cases "truthy url")
    case False
    then have "paginate key url acc w = Some (Inr acc, w)"
      by (simp add: paginate_done)
    with less.prems(5) later_refl [of w] show ?thesis
      by blast
  next
    case url: True
    from less.prems(2) have "\<exists>i\<le>retry_depth w. \<not> is_429 (responses w i)"
      unfolding retries_fit_def by (metis add_0)
    from make_request_at_calm [OF less.prems(1) this less.prems(3), of url] obtain d w1 j
      where mr: "make_request url w = Some (Inr d, w1)" and l1: "later j w w1" and j: "0 < j"
        and d: "truthy d \<longrightarrow> listing_page d \<and> j \<le> N"
      by (auto simp: make_request_def)
    show ?thesis
    proof (cases "truthy d")
      case False
      with url mr have "paginate key url acc w = Some (Inr acc, w1)"
        by (subst paginate.simps) simp
      with l1 less.prems(5) show ?thesis
        by auto
    next
      case True
      with d have page: "listing_page d" and jN: "j \<le> N"
        by simp_all
      from listing_pageD [OF page less.prems(4)] obtain p its where p: "d = JObj p"
        and its: "items_under key p = Inr its"
        and wf: "key = ''articles'' \<longrightarrow> list_all well_formed_article its"
        by blast
      from True p have ne: "p \<noteq> []"
        by simp
      have step: "paginate key url acc w
          = paginate key (cursor p) (acc @ its) (paused w1)"
        by (rule paginate_request [OF url mr [unfolded p] ne its])
      have l2: "later j w (paused w1)"
        by (rule later_paused [OF l1])
      have "benign (paused w1)" "retries_fit (paused w1)" "quiet_from (N - j) (paused w1)"
        using benign_later [OF less.prems(1) l2] retries_fit_later [OF less.prems(2) l2]
          quiet_from_later [OF less.prems(3) l2] by simp_all
      moreover have "key = ''articles'' \<longrightarrow> list_all well_formed_article (acc @ its)"
        using wf less.prems(5) by simp
      moreover have "N - j < N"
        using j jN by simp
      ultimately obtain items w' k
        where "paginate key (cursor p) (acc @ its) (paused w1) = Some (Inr items, w')"
          and "later k (paused w1) w'"
          and "key = ''articles'' \<longrightarrow> list_all well_formed_article items"
        using less.IH [of "N - j" "paused w1" "acc @ its" "cursor p"] less.prems(4)
        by blast
      with step later_trans [OF l2, of k w'] show ?thesis
        by auto
    qed
  qed
qed

lemma py_getitem_InrD:
  "py_getitem x k = Inr v \<Longrightarrow> \<exists>kvs. x = JObj kvs \<and> map_of kvs k = Some v"
  by (cases x) (auto split: option.splits)

lemma truthy_iter_nonempty: "truthy v \<Longrightarrow> py_iter v = Inr xs \<Longrightarrow> xs \<noteq> []"
  by (cases v) auto

lemma download_attachment_later:
  "download_attachment ex url filename w = (fp, w') \<Longrightarrow> later (Suc 0) w w'"
  by (auto simp: download_attachment_eq later_def advance_def split: if_splits)

lemma inline_loop_later:
  "inline_loop ex html aid k ms w = (recs, w') \<Longrightarrow> later (length ms) w w'"
proof (induction ms arbitrary: k w recs w')
  case Nil
  then show ?case by simp
next
  case (Cons m ms)
  obtain fp w1 where d: "download_attachment ex (JStr (attachment_prefix @ m))
      (inline_filename html aid k m) w = (fp, w1)"
    by (cases "download_attachment ex (JStr (attachment_prefix @ m)) (inline_filename html aid k m) w")
  obtain rest w2 where r: "inline_loop ex html aid (k + 1) ms w1 = (rest, w2)"
    by (cases "inline_loop ex html aid (k + 1) ms w1")
  from Cons.prems d r have "w' = w2"
    by (auto split: option.splits)
  with later_trans [OF download_attachment_later [OF d] Cons.IH [OF r]] show ?case
    by simp
qed

lemma structured_loop_well_formed:
  assumes "list_all well_formed_attachment atts" and "py_getitem a ''id'' = Inr aid"
  shows "\<exists>recs w'. structured_loop ex a atts w = (Inr recs, w') \<and> later (length atts) w w'"
  using assms(1)
proof (induction atts arbitrary: w)
  case Nil
  then show ?case by simp
next
  case (Cons att atts)
  from Cons.prems obtain kvs fn cu where att: "att = JObj kvs"
    and fn: "map_of kvs ''file_name'' = Some fn" and cu: "map_of kvs ''content_url'' = Some cu"
    by (cases att) (auto simp: well_formed_attachment_def)
  obtain fp w1 where d: "download_attachment ex cu (py_str aid @ ''_'' @ py_str fn) w = (fp, w1)"
    by (cases "download_attachment ex cu (py_str aid @ ''_'' @ py_str fn) w")
  from Cons.prems have "list_all well_formed_attachment atts"
    by simp
  from Cons.IH [OF this, of w1] obtain recs w'
    where loop: "structured_loop ex a atts w1 = (Inr recs, w')"
      and w': "later (length atts) w1 w'"
    by blast
  from later_trans [OF download_attachment_later [OF d] w']
  have "later (length (att # atts)) w w'"
    by simp
  with assms(2) att fn cu d loop show ?case
    by (cases fp) simp_all
qed

lemma structured_loop_InrD:
  "structured_loop ex a atts w = (Inr recs, w') \<Longrightarrow> atts \<noteq> [] \<Longrightarrow>
     (\<exists>aid. py_getitem a ''id'' = Inr aid) \<and> list_all well_formed_attachment atts"
proof (induction atts arbitrary: w recs)
  case Nil
  then show ?case by simp
next
  case (Cons att atts)
  from Cons.prems(1) obtain aid fn cu w1 rest
    where aid: "py_getitem a ''id'' = Inr aid"
      and fn: "py_getitem att ''file_name'' = Inr fn"
      and cu: "py_getitem att ''content_url'' = Inr cu"
      and rest: "structured_loop ex a atts w1 = (Inr rest, w')"
    by (fastforce split: sum.splits prod.splits option.splits)
  from py_getitem_InrD [OF fn] py_getitem_InrD [OF cu] have "well_formed_attachment att"
    by (auto simp: well_formed_attachment_def)
  moreover have "list_all well_formed_attachment atts"
  proof (cases "atts = []")
    case True
    then show ?thesis by simp
  next
    case False
    from Cons.IH [OF rest False] show ?thesis
      by simp
  qed
  ultimately show ?case
    using aid by auto
qed

text \<open>The export of an article, of a dictionary: the assignment of the empty list first
  has no effect on what the two kinds of attachments read.\<close>

lemma export_article_JObj:
  "export_article ex (JObj kvs) w =
     (case structured_attachments ex (JObj kvs) w of
        (Inl e, w1) \<Rightarrow> (Inl e, w1)
      | (Inr recs1, w1) \<Rightarrow>
          (case inline_attachments ex (JObj kvs) w1 of
             (Inl e, w2) \<Rightarrow> (Inl e, w2)
           | (Inr recs2, w2) \<Rightarrow>
               (Inr (JObj (dict_set kvs ''downloaded_attachments'' (JArr (recs1 @ recs2)))), w2)))"
  by (simp add: export_article_def structured_attachments_shadow inline_attachments_shadow
        cong: prod.case_cong sum.case_cong)

lemma structured_attachments_well_formed:
  assumes "well_formed_article (JObj kvs)"
  shows "\<exists>recs w' k. structured_attachments ex (JObj kvs) w = (Inr recs, w') \<and> later k w w'"
proof (cases "truthy (case map_of kvs ''attachments'' of None \<Rightarrow> JNull | Some v \<Rightarrow> v)")
  case False
  then have "structured_attachments ex (JObj kvs) w = (Inr [], w)"
    by (simp add: structured_attachments_def)
  then show ?thesis
    by (intro exI [of _ "[]"] exI [of _ w] exI [of _ 0]) simp
next
  case True
  with assms obtain aid atts where aid: "map_of kvs ''id'' = Some aid"
    and atts: "py_iter (case map_of kvs ''attachments'' of None \<Rightarrow> JNull | Some v \<Rightarrow> v) = Inr atts"
    and wf: "list_all well_formed_attachment atts"
    by (auto simp: well_formed_article_def split: sum.splits)
  from aid have "py_getitem (JObj kvs) ''id'' = Inr aid"
    by simp
  from structured_loop_well_formed [OF wf this, of ex w] True atts show ?thesis
    by (auto simp: structured_attachments_def)
qed

lemma inline_attachments_well_formed:
  assumes "well_formed_article (JObj kvs)"
  shows "\<exists>recs w' k. inline_attachments ex (JObj kvs) w = (Inr recs, w') \<and> later k w w'"
proof (cases "truthy (case map_of kvs ''body'' of None \<Rightarrow> JNull | Some v \<Rightarrow> v)")
  case False
  then have "inline_attachments ex (JObj kvs) w = (Inr [], w)"
    by (simp add: inline_attachments_def)
  then show ?thesis
    by (intro exI [of _ "[]"] exI [of _ w] exI [of _ 0]) simp
next
  case True
  with assms obtain aid html where aid: "map_of kvs ''id'' = Some aid"
    and body: "map_of kvs ''body'' = Some (JStr html)"
    by (auto simp: well_formed_article_def split: option.splits json.splits)
  obtain recs w' where loop: "inline_loop ex html aid 0 (findall_ids html) w = (recs, w')"
    by (cases "inline_loop ex html aid 0 (findall_ids html) w")
  note inline_loop_later [OF loop]
  moreover from True aid body loop
  have "inline_attachments ex (JObj kvs) w = (Inr recs, w')"
    by (simp add: inline_attachments_def extract_attachments_from_html_def)
  ultimately show ?thesis
    by blast
qed

lemma export_article_well_formed:
  assumes "well_formed_article a"
  shows "\<exists>a' w' k. export_article ex a w = (Inr a', w') \<and> later k w w'"
proof -
  from assms obtain kvs where a: "a = JObj kvs"
    by (cases a) (simp_all add: well_formed_article_def)
  from structured_attachments_well_formed [OF assms [unfolded a], of ex w] obtain recs1 w1 k1
    where s: "structured_attachments ex (JObj kvs) w = (Inr recs1, w1)"
      and w1: "later k1 w w1"
    by blast
  from inline_attachments_well_formed [OF assms [unfolded a], of ex w1] obtain recs2 w2 k2
    where i: "inline_attachments ex (JObj kvs) w1 = (Inr recs2, w2)"
      and w2: "later k2 w1 w2"
    by blast
  from later_trans [OF w1 w2] s i show ?thesis
    unfolding a export_article_JObj by auto
qed

lemma export_article_InrD_well_formed:
  assumes "export_article ex a w = (Inr a', w')"
  shows "well_formed_article a"
proof -
  from export_article_records [OF assms] obtain kvs recs1 w1 recs2 where a: "a = JObj kvs"
    and s: "structured_attachments ex a w = (Inr recs1, w1)"
    and i: "inline_attachments ex a w1 = (Inr recs2, w')"
    by blast
  let ?atts = "case map_of kvs ''attachments'' of None \<Rightarrow> JNull | Some v \<Rightarrow> v"
  let ?body = "case map_of kvs ''body'' of None \<Rightarrow> JNull | Some v \<Rightarrow> v"
  have atts: "map_of kvs ''id'' \<noteq> None
      \<and> (case py_iter ?atts of Inl e \<Rightarrow> False | Inr atts \<Rightarrow> list_all well_formed_attachment atts)"
    if t: "truthy ?atts"
  proof -
    from s t obtain atts where it: "py_iter ?atts = Inr atts"
      and loop: "structured_loop ex (JObj kvs) atts w = (Inr recs1, w1)"
      by (auto simp: a structured_attachments_def split: sum.splits)
    from structured_loop_InrD [OF loop truthy_iter_nonempty [OF t it]] it show ?thesis
      by (auto split: option.splits)
  qed
  have body: "map_of kvs ''id'' \<noteq> None
      \<and> (case map_of kvs ''body'' of Some (JStr s) \<Rightarrow> True | _ \<Rightarrow> False)"
    if t: "truthy ?body"
  proof -
    from i t obtain aid where aid: "map_of kvs ''id'' = Some aid"
      and ex: "extract_attachments_from_html ex ?body aid w1 = (Inr recs2, w')"
      by (auto simp: a inline_attachments_def split: sum.splits option.splits)
    from ex obtain html where "?body = JStr html"
      by (cases ?body) (auto simp: extract_attachments_from_html_def)
    with aid show ?thesis
      by (auto split: option.splits)
  qed
  from atts body show ?thesis
    by (simp add: a well_formed_article_def)
qed

lemma articles_loop_well_formed:
  assumes "list_all well_formed_article as"
  shows "\<exists>out w' k. articles_loop ex as w = (Inr out, w') \<and> length out = length as
           \<and> later k w w'"
  using assms
proof (induction as arbitrary: w)
  case Nil
  show ?case
    by (intro exI [of _ "[]"] exI [of _ w] exI [of _ 0]) simp
next
  case (Cons a as)
  from Cons.prems have "well_formed_article a" and rest: "list_all well_formed_article as"
    by simp_all
  from export_article_well_formed [OF this(1), of ex w] obtain a' w1 k1
    where a: "export_article ex a w = (Inr a', w1)"
      and w1: "later k1 w w1"
    by blast
  from Cons.IH [OF rest, of w1] obtain out w' k
    where l: "articles_loop ex as w1 = (Inr out, w')" and len: "length out = length as"
      and w': "later k w1 w'"
    by blast
  from later_trans [OF w1 w'] a l len show ?case
    by auto
qed

lemma write_json_writable:
  "writable w path \<Longrightarrow>
     \<exists>w'. write_json path v w = Inr w' \<and> later 0 w w'
        \<and> trace w' = trace w @ [Write path (JsonText v)]"
  by (simp add: write_json_def later_def)

lemma get_all_paginated_calm:
  assumes "benign w" and "retries_fit w" and "quiet_from N w"
    and "key = ''categories'' \<or> key = ''sections'' \<or> key = ''articles''"
  shows "\<exists>items w' k. get_all_paginated ex endpoint key w = Some (Inr items, w') \<and> later k w w'
           \<and> (key = ''articles'' \<longrightarrow> list_all well_formed_article items)"
  unfolding get_all_paginated_def
  by (rule paginate_calm [OF assms]) simp

lemma export_themes_later: "\<exists>k. later k w (export_themes ex w)"
proof -
  let ?r = "make_request_at (Suc (retry_depth w)) (JStr (hc_base_url ex @ ''/themes'')) w"
  from make_request_at_later obtain k where k: "later k w (snd ?r)" ..
  obtain r w1 where r: "?r = (r, w1)"
    by (cases ?r)
  with k have "later k w w1"
    by simp
  moreover from this have "later k w (w1\<lparr>trace := t\<rparr>)" for t
    by (simp add: later_def)
  ultimately have "later k w (export_themes ex w)"
    by (auto simp: export_themes_def r write_json_def split: sum.splits)
  then show ?thesis ..
qed

lemma benign_world0: "list_all (benign_response 9223000000) rs \<Longrightarrow> benign (world0 rs)"
  by (auto simp: benign_def world0_def script_def benign_response_def list_all_length)

lemma retries_fit_world0:
  assumes "length rs \<le> 983"
  shows "retries_fit (world0 rs)"
  unfolding retries_fit_def
proof
  fix n
  have "length rs - n \<le> retry_depth (world0 rs)"
    using assms by (simp add: world0_def)
  moreover have "\<not> n + (length rs - n) < length rs"
    by arith
  then have "\<not> is_429 (responses (world0 rs) (n + (length rs - n)))"
    unfolding world0_def script_def is_429_def by simp
  ultimately show "\<exists>i\<le>retry_depth (world0 rs). \<not> is_429 (responses (world0 rs) (n + i))"
    by blast
qed

lemma quiet_from_world0: "quiet_from (length rs) (world0 rs)"
  by (simp add: quiet_from_def world0_def script_def)

lemma files_writable_world0: "files_writable ex (world0 rs)"
  by (simp add: files_writable_def world0_def)

lemma calm_later:
  assumes "benign w" and "retries_fit w" and "quiet_from N w" and "files_writable ex w"
    and "later k w w'"
  shows "benign w' \<and> retries_fit w' \<and> quiet_from N w' \<and> files_writable ex w'"
  using benign_later [OF assms(1,5)] retries_fit_later [OF assms(2,5)]
    quiet_from_mono [OF quiet_from_later [OF assms(3,5)], of N] files_writable_later [OF assms(4,5)]
  by simp

text \<open>The three listing stages return against such a server and write their files.\<close>

lemma export_categories_calm:
  assumes "benign w" and "retries_fit w" and "quiet_from N w" and "files_writable ex w"
  shows "\<exists>cs w' k. export_categories ex w = Some (Inr cs, w') \<and> later k w w'"
proof -
  from get_all_paginated_calm [OF assms(1-3), of "''categories''" ex "''categories''"]
  obtain cs w1 k where c: "get_all_paginated ex ''categories'' ''categories'' w = Some (Inr cs, w1)"
    and l: "later k w w1"
    by auto
  from files_writable_later [OF assms(4) l]
  have "writable w1 (export_dir ex @ ''/categories.json'')"
    by (simp add: files_writable_def)
  from write_json_writable [OF this, of "JArr cs"] obtain w2
    where "write_json (export_dir ex @ ''/categories.json'') (JArr cs) w1 = Inr w2"
      and "later 0 w1 w2"
    by blast
  with c later_trans [OF l, of 0 w2] show ?thesis
    by (auto simp: export_categories_def)
qed

lemma export_sections_calm:
  assumes "benign w" and "retries_fit w" and "quiet_from N w" and "files_writable ex w"
  shows "\<exists>ss w' k. export_sections ex w = Some (Inr ss, w') \<and> later k w w'"
proof -
  from get_all_paginated_calm [OF assms(1-3), of "''sections''" ex "''sections''"]
  obtain ss w1 k where c: "get_all_paginated ex ''sections'' ''sections'' w = Some (Inr ss, w1)"
    and l: "later k w w1"
    by auto
  from files_writable_later [OF assms(4) l]
  have "writable w1 (export_dir ex @ ''/sections.json'')"
    by (simp add: files_writable_def)
  from write_json_writable [OF this, of "JArr ss"] obtain w2
    where "write_json (export_dir ex @ ''/sections.json'') (JArr ss) w1 = Inr w2"
      and "later 0 w1 w2"
    by blast
  with c later_trans [OF l, of 0 w2] show ?thesis
    by (auto simp: export_sections_def)
qed

lemma export_articles_calm:
  assumes "benign w" and "retries_fit w" and "quiet_from N w" and "files_writable ex w"
  shows "\<exists>out w' k. export_articles ex w = Some (Inr out, w') \<and> later k w w'"
proof -
  from get_all_paginated_calm [OF assms(1-3), of "''articles''" ex "''articles''"]
  obtain as w1 k where c: "get_all_paginated ex ''articles'' ''articles'' w = Some (Inr as, w1)"
    and l: "later k w w1" and wf: "list_all well_formed_article as"
    by auto
  from articles_loop_well_formed [OF wf, of ex w1] obtain out w2 j
    where loop: "articles_loop ex as w1 = (Inr out, w2)" and l2: "later j w1 w2"
    by blast
  note l12 = later_trans [OF l l2]
  from files_writable_later [OF assms(4) l12]
  have "writable w2 (export_dir ex @ ''/articles.json'')"
    by (simp add: files_writable_def)
  from write_json_writable [OF this, of "JArr out"] obtain w3
    where "write_json (export_dir ex @ ''/articles.json'') (JArr out) w2 = Inr w3"
      and "later 0 w2 w3"
    by blast
  with c loop later_trans [OF l12, of 0 w3] show ?thesis
    by (auto simp: export_articles_def)
qed

text \<open>
  Against the server whose every answer is a page with a cursor, the loop of a listing
  does not return.
\<close>

lemma paginate_endless_aux:
  assumes "paginate key url acc w = Some rw"
  shows "\<not> (key = ''categories'' \<and> truthy url \<and> responses w = responses world_endless_pages)"
  using assms
proof (induct rule: paginate.raw_induct [rotated 1, consumes 1])
  case (1 f key url acc w rw)
  show ?case
  proof
    assume a: "key = ''categories'' \<and> truthy url \<and> responses w = responses world_endless_pages"
    let ?p = "[(''categories'', JArr [JObj [(''id'', JNum 1)]]),
               (''next_page'', JStr ''https://userology.zendesk.com/next'')]"
    from a have "page_of (responses w 0) (JObj ?p)"
      by (simp add: world_endless_pages_def page_of_def http_error_def)
    from make_request_page [OF this, of url] a 1(2) obtain items
      where "f key (JStr ''https://userology.zendesk.com/next'') (acc @ items)
               ((advance url w)\<lparr>trace := trace (advance url w) @ [Pause]\<rparr>) = Some rw"
      by (auto split: sum.splits)
    from 1(1) [OF this] a show False
      by (simp add: world_endless_pages_def fun_eq_iff)
  qed
qed

lemma get_all_paginated_endless:
  "get_all_paginated ex endpoint ''categories'' world_endless_pages = None"
proof (cases "get_all_paginated ex endpoint ''categories'' world_endless_pages")
  case None
  then show ?thesis .
next
  case (Some rw)
  from paginate_endless_aux [OF Some [unfolded get_all_paginated_def]] show ?thesis
    by simp
qed

section \<open>The claims about the attachments\<close>

text \<open>
  C7. The inline resolver takes the matches of the attachment pattern in the order of
  the body and downloads each one, a repeated URL again: its GET requests are the URLs
  of the matches, one each. It returns a record for every match whose file was saved,
  in that order. The file of match number \<open>j + 1\<close> is named by the article id, the
  number \<open>j + 1\<close> and a name, which is the alternate text of an image tag of the body
  with that URL as its source, or \<open>attachment_\<close> and the id when the body has no such tag.
  The matches are those of the body from left to right: a body where the pattern matches
  nowhere has none, and otherwise the first is the run of digits after the leftmost
  place where the pattern matches, the others those of the body behind that run.
\<close>

theorem inline_attachments_per_match:
  assumes "extract_attachments_from_html ex (JStr html) aid w = (r, w')"
  shows "r = Inr (map (\<lambda>j. inline_record html aid j (findall_ids html ! j)
                      (attachment_path ex (inline_filename html aid j (findall_ids html ! j))))
                 (filter (\<lambda>j. downloadable (responses w j)
                            \<and> writable w (attachment_path ex
                                 (inline_filename html aid j (findall_ids html ! j))))
                    [0..<length (findall_ids html)]))
       \<and> gets (trace w') = gets (trace w) @ map (\<lambda>m. JStr (attachment_prefix @ m)) (findall_ids html)
       \<and> (\<forall>j m p. field ''filename'' (inline_record html aid j m p)
              = Some (JStr (py_str aid @ ''_'' @ str_nat (j + 1) @ ''_'' @ inline_name html m)))
       \<and> (\<forall>m. (\<exists>alt. img_tag (attachment_prefix @ m) alt html \<and> inline_name html m = alt)
              \<or> ((\<forall>alt. \<not> img_tag (attachment_prefix @ m) alt html)
                  \<and> inline_name html m = ''attachment_'' @ m))
       \<and> ((\<forall>k. \<not> match_at html k) \<longrightarrow> findall_ids html = [])
       \<and> (\<forall>g ds rest. html = g @ attachment_prefix @ ds @ rest \<and> ds \<noteq> []
              \<and> list_all is_digit ds \<and> (rest = [] \<or> \<not> is_digit (hd rest))
              \<and> (\<forall>k<length g. \<not> match_at html k) \<longrightarrow>
            findall_ids html = ds # findall_ids rest)"
proof -
  obtain recs where loop: "inline_loop ex html aid 0 (findall_ids html) w = (recs, w')"
    and r: "r = Inr recs"
    using assms by (auto simp: extract_attachments_from_html_def split: prod.splits)
  note eq = inline_loop_eq [OF loop]
  have "field ''filename'' (inline_record html aid j m p)
      = Some (JStr (py_str aid @ ''_'' @ str_nat (j + 1) @ ''_'' @ inline_name html m))" for j m p
    by (simp add: field_def inline_record_def inline_filename_def)
  moreover have "gets (trace w') = gets (trace w)
      @ map (\<lambda>m. JStr (attachment_prefix @ m)) (findall_ids html)"
    using eq by simp
  moreover have "r = Inr (map (\<lambda>j. inline_record html aid j (findall_ids html ! j)
                      (attachment_path ex (inline_filename html aid j (findall_ids html ! j))))
                 (filter (\<lambda>j. downloadable (responses w j)
                            \<and> writable w (attachment_path ex
                                 (inline_filename html aid j (findall_ids html ! j))))
                    [0..<length (findall_ids html)]))"
    using eq r by simp
  moreover have "findall_ids h = []" if "\<forall>k. \<not> match_at h k" for h
    using that
  proof (induction h)
    case Nil
    show ?case
      by (simp add: findall_ids.simps)
  next
    case (Cons c s)
    from Cons.prems have "\<not> match_at (c # s) 0" and "\<forall>k. \<not> match_at s k"
      by (metis, metis match_at_Suc)
    with Cons.IH show ?case
      by (subst findall_ids.simps) (simp add: match_at_0)
  qed
  moreover have "findall_ids (g @ attachment_prefix @ ds @ rest) = ds # findall_ids rest"
    if ds: "ds \<noteq> []" "list_all is_digit ds" and rest: "rest = [] \<or> \<not> is_digit (hd rest)"
      and before: "\<forall>k<length g. \<not> match_at (g @ attachment_prefix @ ds @ rest) k"
    for g ds rest
    using before
  proof (induction g)
    case Nil
    obtain c s where cs: "attachment_prefix @ ds @ rest = c # s"
      by (cases "attachment_prefix @ ds @ rest") (simp_all add: attachment_prefix_def)
    have digits: "\<And>x. x \<in> set ds \<Longrightarrow> is_digit x"
      using ds(2) by (simp add: list_all_iff)
    from rest have stop: "takeWhile is_digit rest = []" "dropWhile is_digit rest = rest"
      by (cases rest; simp)+
    have tw: "takeWhile is_digit (ds @ rest) = ds"
      using digits stop by (simp add: takeWhile_append2)
    have dw: "dropWhile is_digit (ds @ rest) = rest"
      using digits stop by (simp add: dropWhile_append2)
    have "findall_ids (c # s) = ds # findall_ids rest"
      by (subst findall_ids.simps, unfold cs [symmetric]) (simp add: tw dw ds(1))
    then show ?case
      by (simp add: cs)
  next
    case (Cons c g)
    from Cons.prems have first: "\<not> match_at (c # g @ attachment_prefix @ ds @ rest) 0"
      by auto
    have "\<forall>k<length g. \<not> match_at (g @ attachment_prefix @ ds @ rest) k"
    proof (intro allI impI)
      fix k
      assume "k < length g"
      with Cons.prems have "\<not> match_at ((c # g) @ attachment_prefix @ ds @ rest) (Suc k)"
        by simp
      then show "\<not> match_at (g @ attachment_prefix @ ds @ rest) k"
        by (simp add: match_at_Suc)
    qed
    note ih = Cons.IH [OF this]
    from first have "findall_ids (c # g @ attachment_prefix @ ds @ rest)
        = findall_ids (g @ attachment_prefix @ ds @ rest)"
      by (subst findall_ids.simps) (auto simp: match_at_0)
    with ih show ?case
      by simp
  qed
  ultimately show ?thesis
    using inline_name_cases [of _ html] by blast
qed

theorem inline_attachments_per_match_witness:
  "fst (extract_attachments_from_html exporter0 (JStr body_two_references) (JNum 7)
          (world0 [Response 200 None None ''one'', Response 200 None None ''two'']))
     = Inr [inline_record body_two_references (JNum 7) 0 ''12''
              ''zendesk_export_userology/attachments/7_1_a.png'',
            inline_record body_two_references (JNum 7) 1 ''12''
              ''zendesk_export_userology/attachments/7_2_a.png'']
   \<and> gets (trace (snd (extract_attachments_from_html exporter0 (JStr body_two_references) (JNum 7)
          (world0 [Response 200 None None ''one'', Response 200 None None ''two'']))))
     = [JStr ''https://support.userology.co/hc/article_attachments/12'',
        JStr ''https://support.userology.co/hc/article_attachments/12'']
   \<and> field ''filename'' (inline_record body_two_references (JNum 7) 1 ''12''
         ''zendesk_export_userology/attachments/7_2_a.png'') = Some (JStr ''7_2_a.png'')
   \<and> findall_ids (''<'' @ attachment_prefix @ ''345'' @ ''>'') = [''345'']"
proof -
  let ?w = "world0 [Response 200 None None ''one'', Response 200 None None ''two'']"
  have findall_ids_body_two_references: "findall_ids body_two_references = [''12'', ''12'']"
    by code_simp
  have inline_name_body_two_references: "inline_name body_two_references ''12'' = ''a.png''"
    by code_simp
  have names: "inline_filename body_two_references (JNum 7) 0 ''12'' = ''7_1_a.png''"
    "inline_filename body_two_references (JNum 7) (Suc 0) ''12'' = ''7_2_a.png''"
    by (simp_all add: inline_filename_def inline_name_body_two_references str_int_def
          str_nat.simps digit_char_def)
  have paths: "attachment_path exporter0 ''7_1_a.png'' = ''zendesk_export_userology/attachments/7_1_a.png''"
    "attachment_path exporter0 ''7_2_a.png'' = ''zendesk_export_userology/attachments/7_2_a.png''"
    by (simp_all add: attachment_path_def os_path_join_def path_join2_def export_dir_def exporter0_def)
  note inst = inline_attachments_per_match [OF prod.collapse [symmetric],
      of exporter0 body_two_references "JNum 7" ?w]
  from inst have "fst (extract_attachments_from_html exporter0 (JStr body_two_references) (JNum 7) ?w)
     = Inr [inline_record body_two_references (JNum 7) 0 ''12''
              ''zendesk_export_userology/attachments/7_1_a.png'',
            inline_record body_two_references (JNum 7) 1 ''12''
              ''zendesk_export_userology/attachments/7_2_a.png'']"
    by (simp add: findall_ids_body_two_references names paths world0_def script_def
          downloadable_def http_error_def upt_rec)
  moreover from inst
  have "gets (trace (snd (extract_attachments_from_html exporter0 (JStr body_two_references)
          (JNum 7) ?w)))
     = [JStr ''https://support.userology.co/hc/article_attachments/12'',
        JStr ''https://support.userology.co/hc/article_attachments/12'']"
    by (simp add: findall_ids_body_two_references world0_def attachment_prefix_def)
  moreover from inst
  have "field ''filename'' (inline_record body_two_references (JNum 7) 1 ''12''
         ''zendesk_export_userology/attachments/7_2_a.png'')
      = Some (JStr (py_str (JNum 7) @ ''_'' @ str_nat (1 + 1) @ ''_''
          @ inline_name body_two_references ''12''))"
    by blast
  then have "field ''filename'' (inline_record body_two_references (JNum 7) 1 ''12''
         ''zendesk_export_userology/attachments/7_2_a.png'') = Some (JStr ''7_2_a.png'')"
    by (simp add: inline_name_body_two_references str_int_def str_nat.simps digit_char_def)
  moreover have "findall_ids (''<'' @ attachment_prefix @ ''345'' @ ''>'') = [''345'']"
  proof -
    have none: "\<not> match_at ''>'' k" for k
      by (cases k) (simp_all add: match_at_def starts_with_def attachment_prefix_def)
    from inline_attachments_per_match [OF prod.collapse [symmetric], of exporter0 "''>''" "JNum 7" ?w]
      none
    have rest: "findall_ids ''>'' = []"
      by blast
    have "\<forall>k<length ''<''. \<not> match_at (''<'' @ attachment_prefix @ ''345'' @ ''>'') k"
      by (simp add: match_at_def starts_with_def attachment_prefix_def)
    moreover have "list_all is_digit ''345''" "\<not> is_digit (hd ''>'')"
      by (simp_all add: is_digit_def)
    ultimately have "findall_ids (''<'' @ attachment_prefix @ ''345'' @ ''>'')
        = ''345'' # findall_ids ''>''"
      using inline_attachments_per_match [OF prod.collapse [symmetric],
          of exporter0 "''<'' @ attachment_prefix @ ''345'' @ ''>''" "JNum 7" ?w]
      by blast
    with rest show ?thesis
      by simp
  qed
  ultimately show ?thesis
    by blast
qed

text \<open>
  C5. Every record of a run should carry a file name of its own. The code does not
  deliver that for structured attachments: it names them by the article id and the
  declared file name alone, without the sequence number that the inline records get. For
  an article with two attachments that declare the same name, both are downloaded, both
  records carry the file name \<open>7_image.png\<close>, and the second file is written over the
  first.
\<close>

theorem structured_same_file_name:
  "fst (export_article exporter0 article_same_names
          (world0 [Response 200 None None ''one'', Response 200 None None ''two'']))
     = Inr (JObj [(''id'', JNum 7),
                  (''attachments'',
                   JArr [JObj [(''file_name'', JStr ''image.png''),
                               (''content_url'', JStr ''https://files.example/1'')],
                         JObj [(''file_name'', JStr ''image.png''),
                               (''content_url'', JStr ''https://files.example/2'')]]),
                  (''downloaded_attachments'',
                   JArr [structured_record (JStr ''https://files.example/1'')
                           ''zendesk_export_userology/attachments/7_image.png'' ''7_image.png'',
                         structured_record (JStr ''https://files.example/2'')
                           ''zendesk_export_userology/attachments/7_image.png'' ''7_image.png''])])
   \<and> record_filenames (JObj [(''id'', JNum 7),
                  (''attachments'',
                   JArr [JObj [(''file_name'', JStr ''image.png''),
                               (''content_url'', JStr ''https://files.example/1'')],
                         JObj [(''file_name'', JStr ''image.png''),
                               (''content_url'', JStr ''https://files.example/2'')]]),
                  (''downloaded_attachments'',
                   JArr [structured_record (JStr ''https://files.example/1'')
                           ''zendesk_export_userology/attachments/7_image.png'' ''7_image.png'',
                         structured_record (JStr ''https://files.example/2'')
                           ''zendesk_export_userology/attachments/7_image.png'' ''7_image.png''])])
     = [Some (JStr ''7_image.png''), Some (JStr ''7_image.png'')]
   \<and> \<not> distinct [Some (JStr ''7_image.png''), Some (JStr ''7_image.png'')]
   \<and> writes (trace (snd (export_article exporter0 article_same_names
          (world0 [Response 200 None None ''one'', Response 200 None None ''two'']))))
     = [(''zendesk_export_userology/attachments/7_image.png'', Bytes ''one''),
        (''zendesk_export_userology/attachments/7_image.png'', Bytes ''two'')]"
  by code_simp

text \<open>
  What the naming does keep apart. A structured record is named by the article id and
  the declared file name, an inline record by the article id, a sequence number and a
  name. The inline records of one article have file names that differ from one another,
  and the records of two articles whose ids are different integers share no file name.
\<close>

lemma attachment_file_names:
  assumes "export_article ex a w = (Inr a', w')"
  shows "\<exists>srecs irecs. downloaded a' = srecs @ irecs
       \<and> (\<forall>r\<in>set srecs. \<exists>v atts att aid fn.
              py_get a ''attachments'' JNull = Inr v \<and> py_iter v = Inr atts \<and> att \<in> set atts
            \<and> py_getitem a ''id'' = Inr aid \<and> py_getitem att ''file_name'' = Inr fn
            \<and> field ''filename'' r = Some (JStr (py_str aid @ ''_'' @ py_str fn)))
       \<and> (\<forall>r\<in>set irecs. \<exists>aid j name. py_getitem a ''id'' = Inr aid
            \<and> field ''filename'' r
                = Some (JStr (py_str aid @ ''_'' @ str_nat (j + 1) @ ''_'' @ name)))
       \<and> distinct (map (field ''filename'') irecs)
       \<and> (\<forall>b v b' v' m n. export_article ex b v = (Inr b', v')
              \<and> py_getitem a ''id'' = Inr (JNum m) \<and> py_getitem b ''id'' = Inr (JNum n)
              \<and> m \<noteq> n \<longrightarrow>
            set (record_filenames a') \<inter> set (record_filenames b') = {})"
proof -
  from export_article_records [OF assms] obtain recs1 w1 recs2
    where s: "structured_attachments ex a w = (Inr recs1, w1)"
      and i: "inline_attachments ex a w1 = (Inr recs2, w')"
      and d: "downloaded a' = recs1 @ recs2"
    by blast
  have apart: "set (record_filenames a') \<inter> set (record_filenames b') = {}"
    if b: "export_article ex b v = (Inr b', v')" and m: "py_getitem a ''id'' = Inr (JNum m)"
      and n: "py_getitem b ''id'' = Inr (JNum n)" and mn: "m \<noteq> n" for b v b' v' m n
  proof (rule ccontr)
    assume "set (record_filenames a') \<inter> set (record_filenames b') \<noteq> {}"
    then obtain f where fa: "f \<in> set (record_filenames a')" and fb: "f \<in> set (record_filenames b')"
      by blast
    from record_filenames_prefix [OF assms m fa] record_filenames_prefix [OF b n fb]
    obtain r1 r2 where "str_int m @ CHR ''_'' # r1 = str_int n @ CHR ''_'' # r2"
      by auto
    from cut_at_underscore [OF str_int_no_underscore str_int_no_underscore this]
    have "str_int m = str_int n"
      by simp
    from str_int_inj [OF this] mn show False
      by simp
  qed
  from structured_attachments_names [OF s] inline_attachments_names [OF i] d apart
  show ?thesis
    by (intro exI [of _ recs1] exI [of _ recs2]) blast
qed

lemma export_article_both_kinds:
  "fst (export_article exporter0 article_both_kinds
          (world0 [Response 200 None None ''one'', Response 200 None None ''two'',
                   Response 200 None None ''three'']))
     = Inr (JObj [(''id'', JNum 7),
                  (''title'', JStr ''How to''),
                  (''attachments'',
                   JArr [JObj [(''file_name'', JStr ''doc.pdf''),
                               (''content_url'', JStr ''https://files.example/3'')]]),
                  (''body'', JStr body_two_references),
                  (''downloaded_attachments'',
                   JArr [structured_record (JStr ''https://files.example/3'')
                           ''zendesk_export_userology/attachments/7_doc.pdf'' ''7_doc.pdf'',
                         inline_record body_two_references (JNum 7) 0 ''12''
                           ''zendesk_export_userology/attachments/7_1_a.png'',
                         inline_record body_two_references (JNum 7) 1 ''12''
                           ''zendesk_export_userology/attachments/7_2_a.png''])])"
  by code_simp

lemma attachment_file_names_both_kinds:
  "\<exists>srecs irecs.
      downloaded (JObj [(''id'', JNum 7),
                  (''title'', JStr ''How to''),
                  (''attachments'',
                   JArr [JObj [(''file_name'', JStr ''doc.pdf''),
                               (''content_url'', JStr ''https://files.example/3'')]]),
                  (''body'', JStr body_two_references),
                  (''downloaded_attachments'',
                   JArr [structured_record (JStr ''https://files.example/3'')
                           ''zendesk_export_userology/attachments/7_doc.pdf'' ''7_doc.pdf'',
                         inline_record body_two_references (JNum 7) 0 ''12''
                           ''zendesk_export_userology/attachments/7_1_a.png'',
                         inline_record body_two_references (JNum 7) 1 ''12''
                           ''zendesk_export_userology/attachments/7_2_a.png''])])
        = srecs @ irecs
    \<and> distinct (map (field ''filename'') irecs)
    \<and> map (field ''filename'') (srecs @ irecs)
        = [Some (JStr ''7_doc.pdf''), Some (JStr ''7_1_a.png''), Some (JStr ''7_2_a.png'')]"
proof -
  let ?w = "world0 [Response 200 None None ''one'', Response 200 None None ''two'',
                   Response 200 None None ''three'']"
  let ?a' = "JObj [(''id'', JNum 7),
                  (''title'', JStr ''How to''),
                  (''attachments'',
                   JArr [JObj [(''file_name'', JStr ''doc.pdf''),
                               (''content_url'', JStr ''https://files.example/3'')]]),
                  (''body'', JStr body_two_references),
                  (''downloaded_attachments'',
                   JArr [structured_record (JStr ''https://files.example/3'')
                           ''zendesk_export_userology/attachments/7_doc.pdf'' ''7_doc.pdf'',
                         inline_record body_two_references (JNum 7) 0 ''12''
                           ''zendesk_export_userology/attachments/7_1_a.png'',
                         inline_record body_two_references (JNum 7) 1 ''12''
                           ''zendesk_export_userology/attachments/7_2_a.png''])]"
  have run: "export_article exporter0 article_both_kinds ?w
      = (Inr ?a', snd (export_article exporter0 article_both_kinds ?w))"
    using export_article_both_kinds by (metis prod.collapse)
  have names: "map (field ''filename'') (downloaded ?a')
      = [Some (JStr ''7_doc.pdf''), Some (JStr ''7_1_a.png''), Some (JStr ''7_2_a.png'')]"
    by code_simp
  from attachment_file_names [OF run] obtain srecs irecs
    where "downloaded ?a' = srecs @ irecs" and "distinct (map (field ''filename'') irecs)"
    by blast
  with names show ?thesis
    by metis
qed

section \<open>The claims about the article records\<close>

lemma articles_loop_others:
  "articles_loop ex as w = (Inr out, w') \<Longrightarrow>
     list_all2 (\<lambda>a a'. \<exists>kvs kvs'. a = JObj kvs \<and> a' = JObj kvs'
         \<and> filter (\<lambda>kv. fst kv \<noteq> ''downloaded_attachments'') kvs'
             = filter (\<lambda>kv. fst kv \<noteq> ''downloaded_attachments'') kvs) as out"
proof (induction as arbitrary: w out)
  case Nil
  then show ?case by simp
next
  case (Cons a as)
  from Cons.prems obtain a' w1 rest where a: "export_article ex a w = (Inr a', w1)"
    and rest: "articles_loop ex as w1 = (Inr rest, w')" and out: "out = a' # rest"
    by (auto split: prod.splits sum.splits)
  from export_article_records [OF a] obtain kvs recs
    where "a = JObj kvs" "a' = JObj (dict_set kvs ''downloaded_attachments'' (JArr recs))"
    by blast
  then have "\<exists>kvs kvs'. a = JObj kvs \<and> a' = JObj kvs'
      \<and> filter (\<lambda>kv. fst kv \<noteq> ''downloaded_attachments'') kvs'
          = filter (\<lambda>kv. fst kv \<noteq> ''downloaded_attachments'') kvs"
    by (simp add: dict_set_others)
  with Cons.IH [OF rest] out show ?case
    by simp
qed

text \<open>
  C8. When \<open>export_articles\<close> returns, the list it wrote to \<open>articles.json\<close> has one
  record per fetched article, in the same order, and each record holds the fields of
  the fetched article other than \<open>downloaded_attachments\<close> with the same values in the
  same order. The file content is the serialization of that list, so these fields are
  serialized as those of the fetched record would be.
\<close>

theorem export_articles_keeps_fields:
  assumes "export_articles ex w = Some (Inr out, w')"
  shows "\<exists>fetched w1 es.
           get_all_paginated ex ''articles'' ''articles'' w = Some (Inr fetched, w1)
         \<and> list_all2 (\<lambda>a a'. \<exists>kvs kvs'. a = JObj kvs \<and> a' = JObj kvs'
               \<and> filter (\<lambda>kv. fst kv \<noteq> ''downloaded_attachments'') kvs'
                   = filter (\<lambda>kv. fst kv \<noteq> ''downloaded_attachments'') kvs) fetched out
         \<and> trace w' = es @ [Write (export_dir ex @ ''/articles.json'') (JsonText (JArr out))]"
proof -
  from assms obtain fetched w1 w2
    where f: "get_all_paginated ex ''articles'' ''articles'' w = Some (Inr fetched, w1)"
      and l: "articles_loop ex fetched w1 = (Inr out, w2)"
      and w': "write_json (export_dir ex @ ''/articles.json'') (JArr out) w2 = Inr w'"
    by (auto simp: export_articles_def split: option.splits prod.splits sum.splits)
  from w' have "trace w' = trace w2 @ [Write (export_dir ex @ ''/articles.json'') (JsonText (JArr out))]"
    by (auto simp: write_json_def split: if_splits)
  with f articles_loop_others [OF l] show ?thesis
    by blast
qed

lemma export_articles_one_article:
  "map_option fst (export_articles exporter0
      (world0 [Response 200 None (Some (JObj [(''articles'', JArr [article_both_kinds])])) [],
               Response 200 None None ''one'', Response 200 None None ''two'',
               Response 200 None None ''three'']))
     = Some (Inr [JObj [(''id'', JNum 7),
                  (''title'', JStr ''How to''),
                  (''attachments'',
                   JArr [JObj [(''file_name'', JStr ''doc.pdf''),
                               (''content_url'', JStr ''https://files.example/3'')]]),
                  (''body'', JStr body_two_references),
                  (''downloaded_attachments'',
                   JArr [structured_record (JStr ''https://files.example/3'')
                           ''zendesk_export_userology/attachments/7_doc.pdf'' ''7_doc.pdf'',
                         inline_record body_two_references (JNum 7) 0 ''12''
                           ''zendesk_export_userology/attachments/7_1_a.png'',
                         inline_record body_two_references (JNum 7) 1 ''12''
                           ''zendesk_export_userology/attachments/7_2_a.png''])]])"
  by code_simp

theorem export_articles_keeps_fields_witness:
  "\<exists>fetched w1 es.
      get_all_paginated exporter0 ''articles'' ''articles''
        (world0 [Response 200 None (Some (JObj [(''articles'', JArr [article_both_kinds])])) [],
               Response 200 None None ''one'', Response 200 None None ''two'',
               Response 200 None None ''three''])
        = Some (Inr fetched, w1)
    \<and> list_all2 (\<lambda>a a'. \<exists>kvs kvs'. a = JObj kvs \<and> a' = JObj kvs'
          \<and> filter (\<lambda>kv. fst kv \<noteq> ''downloaded_attachments'') kvs'
              = filter (\<lambda>kv. fst kv \<noteq> ''downloaded_attachments'') kvs) fetched
        [JObj [(''id'', JNum 7),
                  (''title'', JStr ''How to''),
                  (''attachments'',
                   JArr [JObj [(''file_name'', JStr ''doc.pdf''),
                               (''content_url'', JStr ''https://files.example/3'')]]),
                  (''body'', JStr body_two_references),
                  (''downloaded_attachments'',
                   JArr [structured_record (JStr ''https://files.example/3'')
                           ''zendesk_export_userology/attachments/7_doc.pdf'' ''7_doc.pdf'',
                         inline_record body_two_references (JNum 7) 0 ''12''
                           ''zendesk_export_userology/attachments/7_1_a.png'',
                         inline_record body_two_references (JNum 7) 1 ''12''
                           ''zendesk_export_userology/attachments/7_2_a.png''])]]
    \<and> trace (snd (the (export_articles exporter0
        (world0 [Response 200 None (Some (JObj [(''articles'', JArr [article_both_kinds])])) [],
               Response 200 None None ''one'', Response 200 None None ''two'',
               Response 200 None None ''three'']))))
        = es @ [Write (export_dir exporter0 @ ''/articles.json'')
            (JsonText (JArr [JObj [(''id'', JNum 7),
                  (''title'', JStr ''How to''),
                  (''attachments'',
                   JArr [JObj [(''file_name'', JStr ''doc.pdf''),
                               (''content_url'', JStr ''https://files.example/3'')]]),
                  (''body'', JStr body_two_references),
                  (''downloaded_attachments'',
                   JArr [structured_record (JStr ''https://files.example/3'')
                           ''zendesk_export_userology/attachments/7_doc.pdf'' ''7_doc.pdf'',
                         inline_record body_two_references (JNum 7) 0 ''12''
                           ''zendesk_export_userology/attachments/7_1_a.png'',
                         inline_record body_two_references (JNum 7) 1 ''12''
                           ''zendesk_export_userology/attachments/7_2_a.png''])]]))]"
proof -
  let ?w = "world0 [Response 200 None (Some (JObj [(''articles'', JArr [article_both_kinds])])) [],
               Response 200 None None ''one'', Response 200 None None ''two'',
               Response 200 None None ''three'']"
  from export_articles_one_article obtain x
    where x: "export_articles exporter0 ?w = Some x" and "fst x = Inr [JObj [(''id'', JNum 7),
                  (''title'', JStr ''How to''),
                  (''attachments'',
                   JArr [JObj [(''file_name'', JStr ''doc.pdf''),
                               (''content_url'', JStr ''https://files.example/3'')]]),
                  (''body'', JStr body_two_references),
                  (''downloaded_attachments'',
                   JArr [structured_record (JStr ''https://files.example/3'')
                           ''zendesk_export_userology/attachments/7_doc.pdf'' ''7_doc.pdf'',
                         inline_record body_two_references (JNum 7) 0 ''12''
                           ''zendesk_export_userology/attachments/7_1_a.png'',
                         inline_record body_two_references (JNum 7) 1 ''12''
                           ''zendesk_export_userology/attachments/7_2_a.png''])]]"
    by blast
  then have run: "export_articles exporter0 ?w = Some (Inr [JObj [(''id'', JNum 7),
                  (''title'', JStr ''How to''),
                  (''attachments'',
                   JArr [JObj [(''file_name'', JStr ''doc.pdf''),
                               (''content_url'', JStr ''https://files.example/3'')]]),
                  (''body'', JStr body_two_references),
                  (''downloaded_attachments'',
                   JArr [structured_record (JStr ''https://files.example/3'')
                           ''zendesk_export_userology/attachments/7_doc.pdf'' ''7_doc.pdf'',
                         inline_record body_two_references (JNum 7) 0 ''12''
                           ''zendesk_export_userology/attachments/7_1_a.png'',
                         inline_record body_two_references (JNum 7) 1 ''12''
                           ''zendesk_export_userology/attachments/7_2_a.png''])]],
        snd (the (export_articles exporter0 ?w)))"
    by (metis option.sel prod.collapse)
  from export_articles_keeps_fields [OF run] show ?thesis .
qed

text \<open>
  C10. What an article holds under \<open>downloaded_attachments\<close> when it is fetched has no
  part in its export: the result is the same for any value there, and a successful
  export holds under the key the records of this run, the structured ones and then the
  inline ones.
\<close>

theorem export_article_replaces_downloaded_attachments:
  "export_article ex (JObj (dict_set kvs ''downloaded_attachments'' v)) w
     = export_article ex (JObj kvs) w
   \<and> (\<forall>a' w'. export_article ex (JObj kvs) w = (Inr a', w') \<longrightarrow>
         (\<exists>recs1 w1 recs2.
             structured_attachments ex (JObj kvs) w = (Inr recs1, w1)
           \<and> inline_attachments ex (JObj kvs) w1 = (Inr recs2, w')
           \<and> field ''downloaded_attachments'' a' = Some (JArr (recs1 @ recs2))))"
proof
  show "export_article ex (JObj (dict_set kvs ''downloaded_attachments'' v)) w
      = export_article ex (JObj kvs) w"
    by (simp add: export_article_def)
next
  show "\<forall>a' w'. export_article ex (JObj kvs) w = (Inr a', w') \<longrightarrow>
         (\<exists>recs1 w1 recs2.
             structured_attachments ex (JObj kvs) w = (Inr recs1, w1)
           \<and> inline_attachments ex (JObj kvs) w1 = (Inr recs2, w')
           \<and> field ''downloaded_attachments'' a' = Some (JArr (recs1 @ recs2)))"
  proof (intro allI impI)
    fix a' w'
    assume "export_article ex (JObj kvs) w = (Inr a', w')"
    from export_article_records [OF this] obtain recs1 w1 recs2
      where "structured_attachments ex (JObj kvs) w = (Inr recs1, w1)"
        and "inline_attachments ex (JObj kvs) w1 = (Inr recs2, w')"
        and "a' = JObj (dict_set kvs ''downloaded_attachments'' (JArr (recs1 @ recs2)))"
      by auto
    then show "\<exists>recs1 w1 recs2.
             structured_attachments ex (JObj kvs) w = (Inr recs1, w1)
           \<and> inline_attachments ex (JObj kvs) w1 = (Inr recs2, w')
           \<and> field ''downloaded_attachments'' a' = Some (JArr (recs1 @ recs2))"
      by (auto simp: field_def map_of_dict_set)
  qed
qed

lemma export_article_upstream_field:
  "fst (export_article exporter0 (JObj article_upstream_field)
          (world0 [Response 200 None None ''one'', Response 200 None None ''two'']))
     = Inr (JObj [(''id'', JNum 7),
                  (''downloaded_attachments'',
                   JArr [inline_record body_two_references (JNum 7) 0 ''12''
                           ''zendesk_export_userology/attachments/7_1_a.png'',
                         inline_record body_two_references (JNum 7) 1 ''12''
                           ''zendesk_export_userology/attachments/7_2_a.png'']),
                  (''body'', JStr body_two_references)])"
  by code_simp

theorem export_article_replaces_downloaded_attachments_witness:
  "export_article exporter0
       (JObj (dict_set article_upstream_field ''downloaded_attachments'' JNull))
       (world0 [Response 200 None None ''one'', Response 200 None None ''two''])
     = export_article exporter0 (JObj article_upstream_field)
         (world0 [Response 200 None None ''one'', Response 200 None None ''two''])
   \<and> field ''downloaded_attachments'' (JObj article_upstream_field)
       = Some (JArr [JStr ''from upstream''])
   \<and> (\<exists>recs1 w1 recs2.
         structured_attachments exporter0 (JObj article_upstream_field)
           (world0 [Response 200 None None ''one'', Response 200 None None ''two''])
           = (Inr recs1, w1)
       \<and> inline_attachments exporter0 (JObj article_upstream_field) w1
           = (Inr recs2, snd (export_article exporter0 (JObj article_upstream_field)
               (world0 [Response 200 None None ''one'', Response 200 None None ''two''])))
       \<and> field ''downloaded_attachments''
            (JObj [(''id'', JNum 7),
                  (''downloaded_attachments'',
                   JArr [inline_record body_two_references (JNum 7) 0 ''12''
                           ''zendesk_export_userology/attachments/7_1_a.png'',
                         inline_record body_two_references (JNum 7) 1 ''12''
                           ''zendesk_export_userology/attachments/7_2_a.png'']),
                  (''body'', JStr body_two_references)])
           = Some (JArr (recs1 @ recs2)))"
proof -
  let ?w = "world0 [Response 200 None None ''one'', Response 200 None None ''two'']"
  note inst = export_article_replaces_downloaded_attachments
    [of exporter0 article_upstream_field JNull ?w]
  have run: "export_article exporter0 (JObj article_upstream_field) ?w
      = (Inr (JObj [(''id'', JNum 7),
                  (''downloaded_attachments'',
                   JArr [inline_record body_two_references (JNum 7) 0 ''12''
                           ''zendesk_export_userology/attachments/7_1_a.png'',
                         inline_record body_two_references (JNum 7) 1 ''12''
                           ''zendesk_export_userology/attachments/7_2_a.png'']),
                  (''body'', JStr body_two_references)]),
         snd (export_article exporter0 (JObj article_upstream_field) ?w))"
    using export_article_upstream_field by (metis prod.collapse)
  have "field ''downloaded_attachments'' (JObj article_upstream_field)
      = Some (JArr [JStr ''from upstream''])"
    by (simp add: field_def article_upstream_field_def)
  with inst run show ?thesis
    by blast
qed

section \<open>The claim about the whole run\<close>




text \<open>
  C9. A 429 response whose Retry-After header is not an integer (an HTTP date, for one)
  makes \<open>make_request\<close> raise the \<^verbatim>\<open>ValueError\<close> of \<^verbatim>\<open>int\<close>: the handler catches
  \<^verbatim>\<open>RequestException\<close> only, so there is no retry, no fallback to 60 and no \<^verbatim>\<open>None\<close>.
\<close>

theorem make_request_retry_after_not_integer:
  assumes "responses w 0 = Response 429 (Some s) body c"
    and "py_int s = Inl ValueError"
  shows "make_request url w = Some (Inl ValueError, advance url w)"
proof -
  from assms have "make_request_at (retry_depth w) url w = (Inl ValueError, advance url w)"
    by (subst make_request_at.simps) (simp add: session_get_def)
  then show ?thesis
    by (simp add: make_request_def)
qed

theorem make_request_retry_after_not_integer_witness:
  "py_int ''Wed, 21 Oct 2015 07:28:00 GMT'' = Inl ValueError
   \<and> make_request (JStr ''https://userology.zendesk.com/api/v2/help_center/articles'')
       (world0 [Response 429 (Some ''Wed, 21 Oct 2015 07:28:00 GMT'') None []])
     = Some (Inl ValueError,
         advance (JStr ''https://userology.zendesk.com/api/v2/help_center/articles'')
           (world0 [Response 429 (Some ''Wed, 21 Oct 2015 07:28:00 GMT'') None []]))"
proof -
  have bad: "py_int ''Wed, 21 Oct 2015 07:28:00 GMT'' = Inl ValueError"
    by (simp add: py_int_def strip_def is_space_def is_digit_def)
  have first: "responses (world0 [Response 429 (Some ''Wed, 21 Oct 2015 07:28:00 GMT'') None []]) 0
      = Response 429 (Some ''Wed, 21 Oct 2015 07:28:00 GMT'') None []"
    by (simp add: world0_def script_def)
  show ?thesis
    using make_request_retry_after_not_integer [OF first bad] bad by simp
qed

end
